theory Spec2Isabelle
  imports Main "HOL-Library.Word" "HOL-Library.Multiset"
begin

section \<open>Block states\<close>

text \<open>
  The fork database of \<^verbatim>\<open>libraries/chain/fork_database.cpp\<close> is a template over a block
  state type \<^verbatim>\<open>bs\<close> that derives from a block header state type \<^verbatim>\<open>bhs\<close>. Only five
  members are read by the database: \<^verbatim>\<open>id()\<close>, \<^verbatim>\<open>previous()\<close>, \<^verbatim>\<open>block_num()\<close>,
  \<^verbatim>\<open>irreversible_blocknum()\<close> (header state) and \<^verbatim>\<open>is_valid()\<close>/\<^verbatim>\<open>set_valid()\<close>
  (block state). The record extension mirrors the derivation. Block ids are a type
  parameter with a linear order, which stands for \<^verbatim>\<open>block_id_type\<close> with \<^verbatim>\<open>sha256_less\<close>;
  block numbers are unsigned 32-bit words. The member \<^verbatim>\<open>id\<close> is called \<open>block_id\<close>
  because \<open>id\<close> is the identity function of HOL.
\<close>

record 'i block_header_state =
  block_id :: 'i
  previous :: 'i
  block_num :: "32 word"
  irreversible_blocknum :: "32 word"

record 'i block_state = "'i block_header_state" +
  valid :: bool

text \<open>
  \<^verbatim>\<open>first_preferred\<close> compares \<^verbatim>\<open>std::pair(irreversible_blocknum, block_num)\<close> with
  \<^verbatim>\<open>operator>\<close>, which is \<^verbatim>\<open>operator<\<close> with the arguments exchanged; the lexicographic
  \<^verbatim>\<open>operator<\<close> of pairs is written out.
\<close>

definition first_preferred :: "'i block_state \<Rightarrow> 'i block_state \<Rightarrow> bool" where
  "first_preferred lhs rhs =
     (irreversible_blocknum rhs < irreversible_blocknum lhs \<or>
      (\<not> irreversible_blocknum lhs < irreversible_blocknum rhs \<and>
       block_num rhs < block_num lhs))"

section \<open>The multi-index container\<close>

text \<open>
  \<^verbatim>\<open>fork_multi_index_type\<close> is a Boost multi-index container with three views of one set of
  nodes: hashed and unique on the id, ordered on \<^verbatim>\<open>previous\<close>, and ordered and unique on
  the composite key (valid, irreversible_blocknum, block_num, id) under
  \<^verbatim>\<open>composite_key_compare<greater<bool>, greater<uint32_t>, greater<uint32_t>, sha256_less>\<close>.
  The model keeps the nodes as one list in the order of the third view
  (\<^verbatim>\<open>by_lib_block_num\<close>), so that \<^verbatim>\<open>begin()\<close> is the first element and the reverse
  iterators of \<^verbatim>\<open>close_impl\<close> run over the reversed list; the other two views are
  computed from it. Nodes are kept by value: a \<^verbatim>\<open>shared_ptr\<close> handed to the database is
  read as the block state it points to at that moment.
\<close>

type_synonym 'i fork_multi_index_type = "'i block_state list"

definition by_lib_block_num :: "'i::linorder block_state \<Rightarrow> 'i block_state \<Rightarrow> bool" where
  "by_lib_block_num a b =
     (valid b < valid a \<or>
      (\<not> valid a < valid b \<and>
       (irreversible_blocknum b < irreversible_blocknum a \<or>
        (\<not> irreversible_blocknum a < irreversible_blocknum b \<and>
         (block_num b < block_num a \<or>
          (\<not> block_num a < block_num b \<and> block_id a < block_id b))))))"

fun ordered_insert ::
  "'i::linorder block_state \<Rightarrow> 'i fork_multi_index_type \<Rightarrow> 'i fork_multi_index_type" where
  "ordered_insert n [] = [n]"
| "ordered_insert n (x # xs) =
     (if by_lib_block_num n x then n # x # xs else x # ordered_insert n xs)"

definition index_find :: "'i fork_multi_index_type \<Rightarrow> 'i \<Rightarrow> 'i block_state option" where
  "index_find idx i = List.find (\<lambda>b. block_id b = i) idx"

text \<open>\<^verbatim>\<open>index.insert(n)\<close>: refused when the id is already there (the second component).\<close>

definition index_insert ::
  "'i::linorder block_state \<Rightarrow> 'i fork_multi_index_type \<Rightarrow> 'i fork_multi_index_type \<times> bool" where
  "index_insert n idx =
     (if index_find idx (block_id n) = None then (ordered_insert n idx, True) else (idx, False))"

definition index_erase :: "'i \<Rightarrow> 'i fork_multi_index_type \<Rightarrow> 'i fork_multi_index_type" where
  "index_erase i idx = filter (\<lambda>b. block_id b \<noteq> i) idx"

text \<open>
  \<^verbatim>\<open>by_id_idx.modify(itr, [](bsp& b) { b->set_valid(v); })\<close>: the node changes its flag
  and is moved to its new place in the composite order.
\<close>

definition index_modify_valid ::
  "'i::linorder \<Rightarrow> bool \<Rightarrow> 'i fork_multi_index_type \<Rightarrow> 'i fork_multi_index_type" where
  "index_modify_valid i v idx =
     (case index_find idx i of
        None \<Rightarrow> idx
      | Some b \<Rightarrow> ordered_insert (b\<lparr>valid := v\<rparr>) (index_erase i idx))"

text \<open>
  The range of the \<^verbatim>\<open>by_prev\<close> view with key \<open>p\<close>, from \<^verbatim>\<open>lower_bound(p)\<close> while
  \<^verbatim>\<open>previous() == p\<close>. Boost keeps equal keys in insertion order, which the model does
  not record; the range is only ever used to collect ids that are erased as a set.
\<close>

definition by_prev_range :: "'i fork_multi_index_type \<Rightarrow> 'i \<Rightarrow> 'i block_state list" where
  "by_prev_range idx p = filter (\<lambda>b. previous b = p) idx"

text \<open>
  \<^verbatim>\<open>indx.lower_bound(false)\<close> on the composite view: the first position whose validity flag
  is not greater than \<^verbatim>\<open>false\<close>, that is where the invalid nodes start.
\<close>

definition lower_bound_false :: "'i fork_multi_index_type \<Rightarrow> 'i block_state list" where
  "lower_bound_false idx = dropWhile valid idx"

section \<open>The database state and its errors\<close>

record 'i fork_database_impl =
  index :: "'i fork_multi_index_type"
  root :: "'i block_state option"
  head :: "'i block_state option"
  magic_number :: "32 word"

text \<open>
  The constructor of \<^verbatim>\<open>fork_database_impl\<close> sets nothing but the magic number:
  \<^verbatim>\<open>root\<close> and \<^verbatim>\<open>head\<close> are null and the index is empty.
\<close>

definition fork_database_new :: "32 word \<Rightarrow> 'i fork_database_impl" where
  "fork_database_new magic = \<lparr>index = [], root = None, head = None, magic_number = magic\<rparr>"

text \<open>
  One constructor for each \<^verbatim>\<open>EOS_ASSERT\<close>/\<^verbatim>\<open>EOS_THROW\<close> of the file, named after its
  message. All are \<^verbatim>\<open>fork_database_exception\<close> except \<open>unlinkable_block\<close>
  (\<^verbatim>\<open>unlinkable_block_exception\<close>) and \<open>block_does_not_exist\<close>
  (\<^verbatim>\<open>fork_db_block_not_found\<close>). \<open>null_dereference\<close> stands for dereferencing an unset
  \<^verbatim>\<open>root\<close> or \<^verbatim>\<open>head\<close> or an end iterator, which is undefined behaviour in C++;
  \<open>unpack_failed\<close> for \<^verbatim>\<open>fc::raw::unpack\<close> running off the stream.
\<close>

datatype fork_db_error =
    root_not_set
  | unlinkable_block
  | incompatible_features
  | duplicate_block
  | advance_root_missing
  | advance_root_not_validated
  | orphaned_branch
  | would_remove_head
  | block_not_in_fork_db
  | block_does_not_exist
  | bad_magic
  | unsupported_version
  | head_not_found
  | head_not_root
  | head_not_best
  | unpack_failed
  | null_dereference

text \<open>
  A mutating member function either returns or throws; in both cases the database is left
  in some state, which the outcome carries.
\<close>

datatype 'i outcome =
    Returned "'i fork_database_impl"
  | Threw fork_db_error "'i fork_database_impl"

fun state_of :: "'i outcome \<Rightarrow> 'i fork_database_impl" where
  "state_of (Returned s) = s"
| "state_of (Threw e s) = s"

section \<open>Lookups\<close>

definition get_block_impl :: "'i fork_database_impl \<Rightarrow> 'i \<Rightarrow> 'i block_state option" where
  "get_block_impl s i = index_find (index s) i"

definition get_block_header_impl ::
  "'i fork_database_impl \<Rightarrow> 'i \<Rightarrow> fork_db_error + 'i block_state option" where
  "get_block_header_impl s i =
     (case root s of
        None \<Rightarrow> Inl null_dereference
      | Some r \<Rightarrow> Inr (if block_id r = i then Some r else index_find (index s) i))"

section \<open>reset, rollback, add, mark_valid\<close>

definition reset_impl ::
  "'i fork_database_impl \<Rightarrow> 'i block_header_state \<Rightarrow> 'i fork_database_impl" where
  "reset_impl s root_bhs =
     (let r = block_header_state.extend root_bhs (block_state.fields True)
      in s\<lparr>index := [], root := Some r, head := Some r\<rparr>)"


text \<open>
  \<open>validator n prev\<close> says that the protocol feature validator returns normally for the
  block \<open>n\<close> on top of \<open>prev\<close> (in particular when \<open>n\<close> carries no protocol feature
  activation extension). The null check of \<^verbatim>\<open>n\<close> has no counterpart: \<open>n\<close> is a value.
\<close>

definition add_impl ::
  "('i block_state \<Rightarrow> 'i block_state \<Rightarrow> bool) \<Rightarrow> 'i::linorder fork_database_impl \<Rightarrow>
   'i block_state \<Rightarrow> bool \<Rightarrow> bool \<Rightarrow> 'i outcome" where
  "add_impl validator s n ignore_duplicate validate =
     (case root s of
        None \<Rightarrow> Threw root_not_set s
      | Some r \<Rightarrow>
         (case get_block_header_impl s (previous n) of
            Inl e \<Rightarrow> Threw e s
          | Inr None \<Rightarrow> Threw unlinkable_block s
          | Inr (Some prev_bh) \<Rightarrow>
             if validate \<and> \<not> validator n prev_bh then Threw incompatible_features s
             else
               (case index_insert n (index s) of
                  (idx, inserted) \<Rightarrow>
                    if \<not> inserted then
                      (if ignore_duplicate then Returned s else Threw duplicate_block s)
                    else
                      (case idx of
                         [] \<Rightarrow> Threw null_dereference (s\<lparr>index := idx\<rparr>)
                       | candidate # _ \<Rightarrow>
                           if valid candidate
                           then Returned (s\<lparr>index := idx, head := Some candidate\<rparr>)
                           else Returned (s\<lparr>index := idx\<rparr>)))))"

text \<open>The public \<^verbatim>\<open>add\<close> passes \<^verbatim>\<open>validate = false\<close> and a validator that does nothing.\<close>

definition add :: "'i::linorder fork_database_impl \<Rightarrow> 'i block_state \<Rightarrow> bool \<Rightarrow> 'i outcome" where
  "add s n ignore_duplicate = add_impl (\<lambda>_ _. True) s n ignore_duplicate False"

definition mark_valid_impl ::
  "'i::linorder fork_database_impl \<Rightarrow> 'i block_state \<Rightarrow> 'i outcome" where
  "mark_valid_impl s h =
     (if valid h then Returned s
      else
        (case index_find (index s) (block_id h) of
           None \<Rightarrow> Threw block_not_in_fork_db s
         | Some _ \<Rightarrow>
            (let idx = index_modify_valid (block_id h) True (index s) in
             case idx of
               [] \<Rightarrow> Threw null_dereference (s\<lparr>index := idx\<rparr>)
             | candidate # _ \<Rightarrow>
                (case head s of
                   None \<Rightarrow> Threw null_dereference (s\<lparr>index := idx\<rparr>)
                 | Some hd_node \<Rightarrow>
                     if first_preferred candidate hd_node
                     then Returned (s\<lparr>index := idx, head := Some candidate\<rparr>)
                     else Returned (s\<lparr>index := idx\<rparr>)))))"

section \<open>pending_head\<close>

definition pending_head ::
  "'i fork_database_impl \<Rightarrow> fork_db_error + 'i block_state option" where
  "pending_head s =
     (case lower_bound_false (index s) of
        [] \<Rightarrow> Inr (head s)
      | itr # _ \<Rightarrow>
         if \<not> valid itr then
           (case head s of
              None \<Rightarrow> Inl null_dereference
            | Some h \<Rightarrow> if first_preferred itr h then Inr (Some itr) else Inr (head s))
         else Inr (head s))"

section \<open>Branches\<close>

text \<open>
  The walks along \<^verbatim>\<open>previous\<close> are \<^verbatim>\<open>for\<close> and \<^verbatim>\<open>while\<close> loops with no bound of their
  own: on an index whose parent links form a cycle they do not return. They are partial
  functions into \<open>option\<close>, with \<open>None\<close> for a loop that runs forever.
\<close>

partial_function (option) fetch_branch_loop ::
  "'i fork_multi_index_type \<Rightarrow> 32 word \<Rightarrow> 'i block_state option \<Rightarrow> 'i block_state list \<Rightarrow>
   'i block_state list option" where
  "fetch_branch_loop idx trim_after_block_num s result =
     (case s of
        None \<Rightarrow> Some result
      | Some b \<Rightarrow>
          fetch_branch_loop idx trim_after_block_num (index_find idx (previous b))
            (if block_num b \<le> trim_after_block_num then result @ [b] else result))"

declare fetch_branch_loop.simps [code]

definition fetch_branch_impl ::
  "'i fork_database_impl \<Rightarrow> 'i \<Rightarrow> 32 word \<Rightarrow> 'i block_state list option" where
  "fetch_branch_impl s h trim_after_block_num =
     fetch_branch_loop (index s) trim_after_block_num (get_block_impl s h) []"

partial_function (option) fetch_branch_from_align ::
  "'i block_state \<Rightarrow> 'i fork_multi_index_type \<Rightarrow> 32 word \<Rightarrow> 'i block_state \<Rightarrow>
   'i block_state list \<Rightarrow> (fork_db_error + 'i block_state \<times> 'i block_state list) option" where
  "fetch_branch_from_align r idx other_num branch result =
     (if other_num < block_num branch then
        (case (if previous branch = block_id r then Some r else index_find idx (previous branch)) of
           None \<Rightarrow> Some (Inl block_does_not_exist)
         | Some p \<Rightarrow> fetch_branch_from_align r idx other_num p (result @ [branch]))
      else Some (Inr (branch, result)))"

declare fetch_branch_from_align.simps [code]

partial_function (option) fetch_branch_from_common ::
  "'i fork_multi_index_type \<Rightarrow> 'i block_state \<Rightarrow> 'i block_state \<Rightarrow>
   'i block_state list \<Rightarrow> 'i block_state list \<Rightarrow>
   (fork_db_error + 'i block_state list \<times> 'i block_state list) option" where
  "fetch_branch_from_common idx first_branch second_branch result_first result_second =
     (if previous first_branch \<noteq> previous second_branch then
        (case index_find idx (previous first_branch) of
           None \<Rightarrow> Some (Inl block_does_not_exist)
         | Some f \<Rightarrow>
            (case index_find idx (previous second_branch) of
               None \<Rightarrow> Some (Inl block_does_not_exist)
             | Some g \<Rightarrow>
                 fetch_branch_from_common idx f g
                   (result_first @ [first_branch]) (result_second @ [second_branch])))
      else Some (Inr (result_first @ [first_branch], result_second @ [second_branch])))"

declare fetch_branch_from_common.simps [code]

text \<open>
  The first two loops of \<^verbatim>\<open>fetch_branch_from_impl\<close> have the same body with the roles of
  the two branches exchanged, and resolve a parent as the root or in the index; the third
  loop looks parents up in the index only.
\<close>

definition fetch_branch_from_impl ::
  "'i fork_database_impl \<Rightarrow> 'i \<Rightarrow> 'i \<Rightarrow>
   (fork_db_error + 'i block_state list \<times> 'i block_state list) option" where
  "fetch_branch_from_impl s first second =
     (case root s of
        None \<Rightarrow> Some (Inl null_dereference)
      | Some r \<Rightarrow>
         (case (if first = block_id r then Some r else get_block_impl s first) of
            None \<Rightarrow> Some (Inl block_does_not_exist)
          | Some first_branch \<Rightarrow>
             (case (if second = block_id r then Some r else get_block_impl s second) of
                None \<Rightarrow> Some (Inl block_does_not_exist)
              | Some second_branch \<Rightarrow>
                 (case fetch_branch_from_align r (index s) (block_num second_branch)
                         first_branch [] of
                    None \<Rightarrow> None
                  | Some (Inl e) \<Rightarrow> Some (Inl e)
                  | Some (Inr (fb, result_first)) \<Rightarrow>
                     (case fetch_branch_from_align r (index s) (block_num fb)
                             second_branch [] of
                        None \<Rightarrow> None
                      | Some (Inl e) \<Rightarrow> Some (Inl e)
                      | Some (Inr (sb, result_second)) \<Rightarrow>
                          if block_id fb = block_id sb
                          then Some (Inr (result_first, result_second))
                          else fetch_branch_from_common (index s) fb sb
                                 result_first result_second)))))"

section \<open>remove and advance_root\<close>

text \<open>
  The first loop of \<^verbatim>\<open>remove_impl\<close>: \<open>i\<close> is the \<^verbatim>\<open>uint32_t\<close> counter, the queue grows
  by the ids of the children of its \<open>i\<close>-th entry.
\<close>

partial_function (option) remove_queue_loop ::
  "'i fork_multi_index_type \<Rightarrow> 'i \<Rightarrow> 'i list \<Rightarrow> 32 word \<Rightarrow> (fork_db_error + 'i list) option" where
  "remove_queue_loop idx head_id remove_queue i =
     (if unat i < length remove_queue then
        (if remove_queue ! unat i = head_id then Some (Inl would_remove_head)
         else remove_queue_loop idx head_id
                (remove_queue @ map block_id (by_prev_range idx (remove_queue ! unat i)))
                (i + 1))
      else Some (Inr remove_queue))"

declare remove_queue_loop.simps [code]

definition remove_impl :: "'i fork_database_impl \<Rightarrow> 'i \<Rightarrow> 'i outcome option" where
  "remove_impl s i =
     (case head s of
        None \<Rightarrow> Some (Threw null_dereference s)
      | Some h \<Rightarrow>
         (case remove_queue_loop (index s) (block_id h) [i] 0 of
            None \<Rightarrow> None
          | Some (Inl e) \<Rightarrow> Some (Threw e s)
          | Some (Inr remove_queue) \<Rightarrow>
              Some (Returned (s\<lparr>index := fold index_erase remove_queue (index s)\<rparr>))))"

text \<open>The first loop of \<^verbatim>\<open>advance_root_impl\<close>, from the new root towards the old one.\<close>

partial_function (option) advance_root_loop ::
  "'i fork_multi_index_type \<Rightarrow> 'i \<Rightarrow> 'i block_state \<Rightarrow> 'i list \<Rightarrow>
   (fork_db_error + 'i list) option" where
  "advance_root_loop idx root_id b blocks_to_remove =
     (case index_find idx (previous b) of
        Some p \<Rightarrow> advance_root_loop idx root_id p (blocks_to_remove @ [previous b])
      | None \<Rightarrow>
          if previous b = root_id then Some (Inr (blocks_to_remove @ [previous b]))
          else Some (Inl orphaned_branch))"

declare advance_root_loop.simps [code]

text \<open>The second loop: \<^verbatim>\<open>remove_impl\<close> on each collected id; a throw ends it.\<close>

fun remove_each :: "'i fork_database_impl \<Rightarrow> 'i list \<Rightarrow> 'i outcome option" where
  "remove_each s [] = Some (Returned s)"
| "remove_each s (bid # blocks_to_remove) =
     (case remove_impl s bid of
        None \<Rightarrow> None
      | Some (Threw e s') \<Rightarrow> Some (Threw e s')
      | Some (Returned s') \<Rightarrow> remove_each s' blocks_to_remove)"

definition advance_root_impl :: "'i fork_database_impl \<Rightarrow> 'i \<Rightarrow> 'i outcome option" where
  "advance_root_impl s i =
     (case root s of
        None \<Rightarrow> Some (Threw root_not_set s)
      | Some r \<Rightarrow>
         (case get_block_impl s i of
            None \<Rightarrow> Some (Threw advance_root_missing s)
          | Some new_root \<Rightarrow>
             if \<not> valid new_root then Some (Threw advance_root_not_validated s)
             else
               (case advance_root_loop (index s) (block_id r) new_root [] of
                  None \<Rightarrow> None
                | Some (Inl e) \<Rightarrow> Some (Threw e s)
                | Some (Inr blocks_to_remove) \<Rightarrow>
                   (case remove_each (s\<lparr>index := index_erase i (index s)\<rparr>) blocks_to_remove of
                      None \<Rightarrow> None
                    | Some (Threw e s') \<Rightarrow> Some (Threw e s')
                    | Some (Returned s') \<Rightarrow> Some (Returned (s'\<lparr>root := Some new_root\<rparr>))))))"

section \<open>Persistence: close\<close>

text \<open>
  The fork database file after \<^verbatim>\<open>fc::raw::pack\<close>: the magic number, the version, the header
  state of the root, the number of blocks as \<^verbatim>\<open>uint32_t\<close> (\<^verbatim>\<open>index.size()\<close> is
  converted to it), the blocks, and the id of the head when \<^verbatim>\<open>head\<close> is set. A file
  record holds what \<^verbatim>\<open>fc::raw::unpack\<close> reads back; the bytes are not modelled.
\<close>

record 'i fork_db_file =
  file_magic :: "32 word"
  file_version :: "32 word"
  file_root :: "'i block_header_state"
  file_num_blocks :: "32 word"
  file_blocks :: "'i block_state list"
  file_head_id :: "'i option"

text \<open>
  Modelled from the spec: \<^verbatim>\<open>fork_database::min_supported_version\<close> and
  \<^verbatim>\<open>fork_database::max_supported_version\<close> are declared in \<^verbatim>\<open>fork_database.hpp\<close>, which is
  not among the sources; the specification gives version 1 for both.
\<close>

definition min_supported_version :: "32 word" where
  "min_supported_version = 1"

definition max_supported_version :: "32 word" where
  "max_supported_version = 1"

text \<open>
  The loop of \<^verbatim>\<open>close_impl\<close> over the two reverse ranges. The first argument is what is
  left of the range \<^verbatim>\<open>[unvalidated_itr, unvalidated_end)\<close>, the second what is left of
  \<^verbatim>\<open>[validated_itr, validated_end)\<close>; the result is the sequence of packed blocks.
\<close>

fun close_merge :: "'i block_state list \<Rightarrow> 'i block_state list \<Rightarrow> 'i block_state list" where
  "close_merge [] [] = []"
| "close_merge (u # us) (v # vs) =
     (if first_preferred v u then u # close_merge us (v # vs)
      else v # close_merge (u # us) vs)"
| "close_merge (u # us) [] = u # close_merge us []"
| "close_merge [] (v # vs) = v # close_merge [] vs"

text \<open>
  \<^verbatim>\<open>close_impl\<close> returns the state it leaves and the file it writes, if it writes one.
  The unvalidated range runs from \<^verbatim>\<open>rbegin()\<close> to the reverse iterator of
  \<^verbatim>\<open>lower_bound(false)\<close>, the validated range from there to \<^verbatim>\<open>rend()\<close>.
\<close>

definition close_impl ::
  "'i fork_database_impl \<Rightarrow> 'i fork_database_impl \<times> 'i fork_db_file option" where
  "close_impl s =
     (case root s of
        None \<Rightarrow> (s, None)
      | Some r \<Rightarrow>
          (s\<lparr>index := []\<rparr>,
           Some \<lparr>file_magic = magic_number s,
                 file_version = max_supported_version,
                 file_root = block_header_state.truncate r,
                 file_num_blocks = of_nat (length (index s)),
                 file_blocks =
                   close_merge (rev (lower_bound_false (index s)))
                     (rev (takeWhile valid (index s))),
                 file_head_id = map_option block_id (head s)\<rparr>))"

section \<open>Persistence: open\<close>

text \<open>The loop of \<^verbatim>\<open>open_impl\<close> that adds the blocks of the file, validating each.\<close>

fun open_add_loop ::
  "('i block_state \<Rightarrow> 'i block_state \<Rightarrow> bool) \<Rightarrow> 'i::linorder fork_database_impl \<Rightarrow>
   'i block_state list \<Rightarrow> 'i outcome" where
  "open_add_loop validator s [] = Returned s"
| "open_add_loop validator s (b # bs) =
     (case add_impl validator s b False True of
        Threw e s' \<Rightarrow> Threw e s'
      | Returned s' \<Rightarrow> open_add_loop validator s' bs)"

text \<open>
  \<^verbatim>\<open>open_impl\<close> takes the file at the path, if there is one, and returns the outcome
  together with the file left at the path: none after a successful open, which removes it.
  A file whose block count differs from the number of blocks it holds, or that ends before
  the head id, makes \<^verbatim>\<open>fc::raw::unpack\<close> read off the frame; that is \<open>unpack_failed\<close>.
  The blocks of a file record are those whose header extensions are extracted without error.
\<close>

definition open_impl ::
  "('i block_state \<Rightarrow> 'i block_state \<Rightarrow> bool) \<Rightarrow> 'i::linorder fork_database_impl \<Rightarrow>
   'i fork_db_file option \<Rightarrow> 'i outcome \<times> 'i fork_db_file option" where
  "open_impl validator s fork_db_file =
     (case fork_db_file of
        None \<Rightarrow> (Returned s, None)
      | Some f \<Rightarrow>
         if file_magic f \<noteq> magic_number s then (Threw bad_magic s, Some f)
         else if \<not> (min_supported_version \<le> file_version f \<and>
                     file_version f \<le> max_supported_version)
         then (Threw unsupported_version s, Some f)
         else
           (case open_add_loop validator (reset_impl s (file_root f))
                   (take (unat (file_num_blocks f)) (file_blocks f)) of
              Threw e s' \<Rightarrow> (Threw e s', Some f)
            | Returned s' \<Rightarrow>
               if length (file_blocks f) \<noteq> unat (file_num_blocks f)
               then (Threw unpack_failed s', Some f)
               else
                 (case (file_head_id f, root s') of
                    (None, _) \<Rightarrow> (Threw unpack_failed s', Some f)
                  | (Some head_id, None) \<Rightarrow> (Threw null_dereference s', Some f)
                  | (Some head_id, Some r) \<Rightarrow>
                     (case (if block_id r = head_id then Some r
                            else get_block_impl s' head_id) of
                        None \<Rightarrow> (Threw head_not_found (s'\<lparr>head := None\<rparr>), Some f)
                      | Some h \<Rightarrow>
                         (case index s' of
                            [] \<Rightarrow>
                              if block_id h = block_id r
                              then (Returned (s'\<lparr>head := Some h\<rparr>), None)
                              else (Threw head_not_root (s'\<lparr>head := Some h\<rparr>), Some f)
                          | candidate # _ \<Rightarrow>
                              if \<not> valid candidate then
                                (if block_id h = block_id r
                                 then (Returned (s'\<lparr>head := Some h\<rparr>), None)
                                 else (Threw head_not_root (s'\<lparr>head := Some h\<rparr>), Some f))
                              else if first_preferred candidate h
                              then (Threw head_not_best (s'\<lparr>head := Some h\<rparr>), Some f)
                              else (Returned (s'\<lparr>head := Some h\<rparr>), None))))))"

section \<open>The invariants of the data model\<close>

text \<open>
  The structural invariants that the specification states for a tree with root \<open>r\<close> and
  index \<open>idx\<close>: ids are unique over the root and the index, the parent link of every index
  node resolves to the root or to an index node, a linked child is one block higher than
  its parent (as numbers, without wrap-around), and the irreversible block number does not
  decrease from a parent to its child. \<^verbatim>\<open>add_impl\<close> checks the second only.
\<close>

definition ids_unique :: "'i block_state \<Rightarrow> 'i fork_multi_index_type \<Rightarrow> bool" where
  "ids_unique r idx = distinct (map block_id (r # idx))"

definition previous_resolves :: "'i block_state \<Rightarrow> 'i fork_multi_index_type \<Rightarrow> bool" where
  "previous_resolves r idx =
     (\<forall>n\<in>set idx. previous n = block_id r \<or> previous n \<in> block_id ` set idx)"

definition block_num_linked :: "'i block_state \<Rightarrow> 'i fork_multi_index_type \<Rightarrow> bool" where
  "block_num_linked r idx =
     (\<forall>n\<in>set idx. \<forall>p\<in>set (r # idx).
        previous n = block_id p \<longrightarrow> unat (block_num n) = Suc (unat (block_num p)))"

definition irreversible_monotone :: "'i block_state \<Rightarrow> 'i fork_multi_index_type \<Rightarrow> bool" where
  "irreversible_monotone r idx =
     (\<forall>n\<in>set idx. \<forall>p\<in>set (r # idx).
        previous n = block_id p \<longrightarrow> irreversible_blocknum p \<le> irreversible_blocknum n)"

text \<open>
  The branch of an id in the index: the node with that id, then the node its
  \<^verbatim>\<open>previous\<close> names, and so on as long as the index has the parent.
\<close>

fun is_branch :: "'i fork_multi_index_type \<Rightarrow> 'i \<Rightarrow> 'i block_state list \<Rightarrow> bool" where
  "is_branch idx h [] = (index_find idx h = None)"
| "is_branch idx h (b # bs) = (index_find idx h = Some b \<and> is_branch idx (previous b) bs)"

text \<open>
  \<open>descends idx a n\<close>: the index node \<open>n\<close> is a descendant of the block with id \<open>a\<close>,
  that is following \<^verbatim>\<open>previous\<close> from \<open>n\<close> through nodes of the index reaches a node whose
  \<^verbatim>\<open>previous\<close> is \<open>a\<close>.
\<close>

inductive descends :: "'i fork_multi_index_type \<Rightarrow> 'i \<Rightarrow> 'i block_state \<Rightarrow> bool"
  for idx :: "'i fork_multi_index_type" and a :: 'i where
  child: "n \<in> set idx \<Longrightarrow> previous n = a \<Longrightarrow> descends idx a n"
| step: "n \<in> set idx \<Longrightarrow> m \<in> set idx \<Longrightarrow> previous n = block_id m \<Longrightarrow> descends idx a m \<Longrightarrow>
         descends idx a n"

code_pred descends .

text \<open>
  The ids that \<^verbatim>\<open>remove(a)\<close> is meant to erase: \<open>a\<close> and the ids of its descendants.
  \<open>index_acyclic\<close> is what the block numbers give for links inside the index: a parent is
  lower than its child.
\<close>

definition subtree_ids :: "'i fork_multi_index_type \<Rightarrow> 'i \<Rightarrow> 'i set" where
  "subtree_ids idx a = insert a (block_id ` {n. descends idx a n})"

definition index_acyclic :: "'i fork_multi_index_type \<Rightarrow> bool" where
  "index_acyclic idx =
     (\<forall>n\<in>set idx. \<forall>p\<in>set idx. previous n = block_id p \<longrightarrow> block_num p < block_num n)"

text \<open>
  The invariant of the first loop of \<^verbatim>\<open>remove_impl\<close> when it is about to look at position
  \<open>k\<close> of the queue \<open>q\<close>, started from the id \<open>a\<close> with head id \<open>hid\<close>.
\<close>

definition remove_inv ::
  "'i fork_multi_index_type \<Rightarrow> 'i \<Rightarrow> 'i \<Rightarrow> 'i list \<Rightarrow> nat \<Rightarrow> bool" where
  "remove_inv idx a hid q k =
     (k \<le> length q \<and> q \<noteq> [] \<and> q ! 0 = a \<and> distinct q \<and> set q \<subseteq> subtree_ids idx a \<and>
      (\<forall>j<k. set (map block_id (by_prev_range idx (q ! j))) \<subseteq> set q) \<and>
      (\<forall>j<k. q ! j \<noteq> hid) \<and>
      (\<forall>m. 0 < m \<and> m < length q \<longrightarrow>
           (\<exists>n\<in>set idx. block_id n = q ! m \<and> (\<exists>j<k. previous n = q ! j))))"

text \<open>
  What the second loop of \<^verbatim>\<open>advance_root_impl\<close> leaves of an index when no
  \<^verbatim>\<open>remove_impl\<close> throws: the subtrees of the given ids are cut out one after the other.
\<close>

fun prune_each :: "'i fork_multi_index_type \<Rightarrow> 'i list \<Rightarrow> 'i fork_multi_index_type" where
  "prune_each idx [] = idx"
| "prune_each idx (a # as) =
     prune_each (filter (\<lambda>n. block_id n \<notin> subtree_ids idx a) idx) as"

text \<open>
  The path of a node to the root: the node, its parent, and so on down to and including
  the root \<open>r\<close>. A parent is looked up as \<^verbatim>\<open>fetch_branch_from_impl\<close> does it: the root if
  \<^verbatim>\<open>previous\<close> is the root id, a node of the index otherwise.
\<close>

fun is_root_path ::
  "'i block_state \<Rightarrow> 'i fork_multi_index_type \<Rightarrow> 'i block_state list \<Rightarrow> bool" where
  "is_root_path r idx [] = False"
| "is_root_path r idx [x] = (x = r)"
| "is_root_path r idx (x # y # ys) =
     (x \<in> set idx \<and>
      (if previous x = block_id r then Some r else index_find idx (previous x)) = Some y \<and>
      is_root_path r idx (y # ys))"

text \<open>
  The walks of \<^verbatim>\<open>fetch_branch_from_impl\<close> as lists of nodes. In the first two loops the
  parent of a node is the root, if \<^verbatim>\<open>previous\<close> is the root id, or else a node of the
  index; in the third loop it is looked up in the index only.
\<close>

definition parent_of ::
  "'i block_state \<Rightarrow> 'i fork_multi_index_type \<Rightarrow> 'i block_state \<Rightarrow> 'i block_state option" where
  "parent_of r idx x =
     (if previous x = block_id r then Some r else index_find idx (previous x))"

fun is_walk ::
  "'i block_state \<Rightarrow> 'i fork_multi_index_type \<Rightarrow> 'i block_state list \<Rightarrow> bool" where
  "is_walk r idx [] = True"
| "is_walk r idx [x] = True"
| "is_walk r idx (x # y # ys) = (parent_of r idx x = Some y \<and> is_walk r idx (y # ys))"

fun is_index_walk :: "'i fork_multi_index_type \<Rightarrow> 'i block_state list \<Rightarrow> bool" where
  "is_index_walk idx [] = True"
| "is_index_walk idx [x] = True"
| "is_index_walk idx (x # y # ys) =
     (index_find idx (previous x) = Some y \<and> is_index_walk idx (y # ys))"

section \<open>Reachable states\<close>


text \<open>
  What holds in every reachable state: the index is in the order of its composite view
  with unique ids, a root that is set is valid, and a head that is set is valid and at
  least as preferred as every valid node of the index.
\<close>

definition index_ok :: "'i::linorder fork_multi_index_type \<Rightarrow> bool" where
  "index_ok idx = (sorted_wrt by_lib_block_num idx \<and> distinct (map block_id idx))"




section \<open>Example trees\<close>

text \<open>
  Concrete databases with natural numbers as block ids, on which the theorems below are
  instantiated.
\<close>

definition blk :: "nat \<Rightarrow> nat \<Rightarrow> 32 word \<Rightarrow> 32 word \<Rightarrow> bool \<Rightarrow> nat block_state" where
  "blk i p n l v =
     \<lparr>block_id = i, previous = p, block_num = n, irreversible_blocknum = l, valid = v\<rparr>"

definition ex_root :: "nat block_header_state" where
  "ex_root = \<lparr>block_id = 10, previous = 9, block_num = 10, irreversible_blocknum = 5\<rparr>"

definition ex_fresh :: "nat fork_database_impl" where
  "ex_fresh = reset_impl (fork_database_new 7) ex_root"

text \<open>The root 10, a valid child 11 and an invalid grandchild 12.\<close>

definition ex_two :: "nat fork_database_impl" where
  "ex_two =
     state_of (add (state_of (add ex_fresh (blk 11 10 11 5 True) False))
                 (blk 12 11 12 5 False) False)"

text \<open>The root 10 with the chain 11, 12 on top, neither block validated yet.\<close>

definition ex_pending :: "nat fork_database_impl" where
  "ex_pending =
     state_of (add (state_of (add ex_fresh (blk 11 10 11 5 False) False))
                 (blk 12 11 12 5 False) False)"

text \<open>
  The root 10 with two valid children, 11 and the more preferred 21, which is the head, and
  a block 12 on top of 11.
\<close>

definition ex_fork :: "nat fork_database_impl" where
  "ex_fork =
     state_of (add (state_of (add (state_of (add ex_fresh (blk 11 10 11 5 True) False))
                 (blk 21 10 11 6 True) False)) (blk 12 11 12 5 False) False)"

text \<open>The same with the head on the side of 11: the valid block 13 on top of 12.\<close>

definition ex_fork_13 :: "nat fork_database_impl" where
  "ex_fork_13 =
     state_of (add (state_of (add (state_of (add (state_of (add ex_fresh
       (blk 11 10 11 5 True) False)) (blk 21 10 11 5 True) False))
       (blk 12 11 12 5 False) False)) (blk 13 12 13 5 True) False)"

text \<open>
  A database that is used again after \<^verbatim>\<open>close\<close>: block 11 is added valid and becomes the
  head, \<^verbatim>\<open>close\<close> empties the index and keeps the head; then 21 and a second, not yet
  validated block state with the id 11 are added, and 21 is marked valid.
\<close>

definition ex_closed :: "nat fork_database_impl" where
  "ex_closed = fst (close_impl (state_of (add ex_fresh (blk 11 10 11 5 True) False)))"



text \<open>
  Trees that \<^verbatim>\<open>add\<close> accepts although they are not trees of the data model: a block with
  the id of the root on top of the root, and a block 12 on top of 11 whose block number is
  lower than that of its parent.
\<close>

definition ex_dup_root :: "nat fork_database_impl" where
  "ex_dup_root = state_of (add ex_fresh (blk 10 10 11 5 True) False)"

definition ex_low :: "nat fork_database_impl" where
  "ex_low =
     state_of (add (state_of (add ex_fresh (blk 11 10 11 5 True) False))
                 (blk 12 11 5 5 False) False)"

text \<open>
  The tree that the failed \<^verbatim>\<open>advance_root(11)\<close> leaves of the tree with the two valid
  children, whose head 21 is not above 11.
\<close>

definition ex_orphan :: "nat fork_database_impl" where
  "ex_orphan = (case advance_root_impl ex_fork 11 of None \<Rightarrow> ex_fork | Some out \<Rightarrow> state_of out)"

text \<open>
  The same chain with both blocks at the block number 11, which \<^verbatim>\<open>add\<close> accepts as
  well.
\<close>

definition ex_level :: "nat fork_database_impl" where
  "ex_level =
     state_of (add (state_of (add ex_fresh (blk 11 10 11 5 True) False))
                 (blk 12 11 11 5 False) False)"

section \<open>Evaluating the examples\<close>

lemmas ex_defs = fork_database_new_def blk_def ex_root_def ex_fresh_def

lemmas op_defs = add_def add_impl_def reset_impl_def get_block_header_impl_def
  index_insert_def index_find_def by_lib_block_num_def first_preferred_def
  block_header_state.defs block_state.defs Let_def

lemma ex_fresh_eq:
  "ex_fresh = \<lparr>index = [], root = Some (blk 10 9 10 5 True),
                head = Some (blk 10 9 10 5 True), magic_number = 7\<rparr>"
  by (simp add: ex_defs op_defs)

lemma ex_two_eq:
  "ex_two = \<lparr>index = [blk 11 10 11 5 True, blk 12 11 12 5 False],
              root = Some (blk 10 9 10 5 True),
              head = Some (blk 11 10 11 5 True), magic_number = 7\<rparr>"
  by (simp add: ex_two_def ex_defs op_defs)

lemma ex_pending_eq:
  "ex_pending = \<lparr>index = [blk 12 11 12 5 False, blk 11 10 11 5 False],
                  root = Some (blk 10 9 10 5 True),
                  head = Some (blk 10 9 10 5 True), magic_number = 7\<rparr>"
  by (simp add: ex_pending_def ex_defs op_defs)

lemma ex_fork_eq:
  "ex_fork = \<lparr>index = [blk 21 10 11 6 True, blk 11 10 11 5 True, blk 12 11 12 5 False],
               root = Some (blk 10 9 10 5 True),
               head = Some (blk 21 10 11 6 True), magic_number = 7\<rparr>"
  by (simp add: ex_fork_def ex_defs op_defs)

lemma ex_fork_13_eq:
  "ex_fork_13 = \<lparr>index = [blk 13 12 13 5 True, blk 11 10 11 5 True, blk 21 10 11 5 True,
                            blk 12 11 12 5 False],
               root = Some (blk 10 9 10 5 True),
               head = Some (blk 13 12 13 5 True), magic_number = 7\<rparr>"
  by (simp add: ex_fork_13_def ex_defs op_defs)

lemma ex_closed_eq:
  "ex_closed = \<lparr>index = [], root = Some (blk 10 9 10 5 True),
                 head = Some (blk 11 10 11 5 True), magic_number = 7\<rparr>"
  by (simp add: ex_closed_def close_impl_def ex_defs op_defs)





lemma ex_dup_root_eq:
  "ex_dup_root = \<lparr>index = [blk 10 10 11 5 True], root = Some (blk 10 9 10 5 True),
                   head = Some (blk 10 10 11 5 True), magic_number = 7\<rparr>"
  by (simp add: ex_dup_root_def ex_defs op_defs)

lemma ex_low_eq:
  "ex_low = \<lparr>index = [blk 11 10 11 5 True, blk 12 11 5 5 False],
              root = Some (blk 10 9 10 5 True),
              head = Some (blk 11 10 11 5 True), magic_number = 7\<rparr>"
  by (simp add: ex_low_def ex_defs op_defs)

lemma ex_orphan_eq:
  "ex_orphan = \<lparr>index = [blk 21 10 11 6 True, blk 12 11 12 5 False],
                 root = Some (blk 10 9 10 5 True),
                 head = Some (blk 21 10 11 6 True), magic_number = 7\<rparr>"
  by (simp add: ex_orphan_def ex_fork_eq advance_root_impl_def get_block_impl_def index_find_def
        advance_root_loop.simps remove_impl_def remove_queue_loop.simps by_prev_range_def
        blk_def index_erase_def)

lemma ex_level_eq:
  "ex_level = \<lparr>index = [blk 11 10 11 5 True, blk 12 11 11 5 False],
                root = Some (blk 10 9 10 5 True),
                head = Some (blk 11 10 11 5 True), magic_number = 7\<rparr>"
  by (simp add: ex_level_def ex_defs op_defs)

section \<open>Lookups by id\<close>

lemma index_find_None: "index_find idx i = None \<longleftrightarrow> i \<notin> block_id ` set idx"
  by (force simp: index_find_def find_None_iff)

lemma index_find_Some_mem: "index_find idx i = Some b \<Longrightarrow> b \<in> set idx \<and> block_id b = i"
  by (auto simp: index_find_def find_Some_iff)

lemma index_find_distinct:
  "distinct (map block_id idx) \<Longrightarrow> b \<in> set idx \<Longrightarrow> index_find idx (block_id b) = Some b"
  by (induction idx) (auto simp: index_find_def)

text \<open>
  Claim C10, as stated, fails: \<^verbatim>\<open>add\<close> compares the id of a new block with the ids of
  the index only, so that it accepts a block with the id of the root on top of the root;
  \<^verbatim>\<open>get_block\<close> of the root id then returns that index node and not a null pointer.
\<close>

theorem get_block_root_id_counterexample:
  "root ex_dup_root = Some (blk 10 9 10 5 True) \<and>
   get_block_impl ex_dup_root 10 = Some (blk 10 10 11 5 True)"
  by (simp add: ex_dup_root_eq get_block_impl_def index_find_def blk_def)

text \<open>
  Claim C10, amended. In every tree with the root set, \<^verbatim>\<open>get_block_header\<close> of the root
  id is the root, while \<^verbatim>\<open>get_block\<close> searches the index only: for the root id it is
  null exactly when no index node has that id, and a node that it returns is an index node
  with that id. For an id that is neither the root's nor in the index both are null, and
  none of them throws.
\<close>

theorem get_block_index_only:
  assumes "root s = Some r"
  shows "get_block_header_impl s (block_id r) = Inr (Some r) \<and>
         (get_block_impl s (block_id r) = None \<longleftrightarrow>
            block_id r \<notin> block_id ` set (index s)) \<and>
         (\<forall>n. get_block_impl s (block_id r) = Some n \<longrightarrow>
            n \<in> set (index s) \<and> block_id n = block_id r) \<and>
         (i \<noteq> block_id r \<and> i \<notin> block_id ` set (index s) \<longrightarrow>
            get_block_impl s i = None \<and> get_block_header_impl s i = Inr None)"
  using assms index_find_None[of "index s"] index_find_Some_mem[of "index s"]
  by (simp add: get_block_impl_def get_block_header_impl_def)

theorem get_block_index_only_witness:
  "root ex_two = Some (blk 10 9 10 5 True) \<and>
   get_block_impl ex_two 10 = None \<and>
   get_block_header_impl ex_two 10 = Inr (Some (blk 10 9 10 5 True)) \<and>
   get_block_impl ex_two 77 = None \<and> get_block_header_impl ex_two 77 = Inr None"
proof -
  have r: "root ex_two = Some (blk 10 9 10 5 True)" by (simp add: ex_two_eq)
  have i: "block_id (blk 10 9 10 5 True) = 10"
    "block_id (blk 10 9 10 5 True) \<notin> block_id ` set (index ex_two)"
    "77 \<noteq> block_id (blk 10 9 10 5 True) \<and> 77 \<notin> block_id ` set (index ex_two)"
    by (simp_all add: ex_two_eq blk_def)
  from get_block_index_only[OF r, of 77] i r show ?thesis by simp
qed

section \<open>pending_head\<close>

lemma lower_bound_false_Nil:
  "lower_bound_false idx = [] \<Longrightarrow> List.find (\<lambda>b. \<not> valid b) idx = None"
  by (induction idx) (auto simp: lower_bound_false_def split: if_splits)

lemma lower_bound_false_Cons:
  "lower_bound_false idx = c # cs \<Longrightarrow> List.find (\<lambda>b. \<not> valid b) idx = Some c"
  by (induction idx) (auto simp: lower_bound_false_def split: if_splits)

text \<open>
  Claim C2, as the specification defines \<^verbatim>\<open>pending_head\<close>, fails: the candidate of the
  code is not the first entry of the composite view but the entry at
  \<^verbatim>\<open>lower_bound(false)\<close>, the first invalid one. In the example the first entry (block 11)
  is valid, so that the claim asks for the head, block 11; the code returns the invalid
  block 12, which is preferred to the head.
\<close>

theorem pending_head_first_entry_counterexample:
  "index ex_two = [blk 11 10 11 5 True, blk 12 11 12 5 False] \<and>
   valid (blk 11 10 11 5 True) \<and>
   head ex_two = Some (blk 11 10 11 5 True) \<and>
   pending_head ex_two = Inr (Some (blk 12 11 12 5 False)) \<and>
   blk 12 11 12 5 False \<noteq> blk 11 10 11 5 True"
  by (simp add: ex_two_eq)
     (simp add: blk_def pending_head_def lower_bound_false_def first_preferred_def)

text \<open>
  Claim C2, amended. With the head set, \<^verbatim>\<open>pending_head\<close> returns \<open>c\<close>, the first invalid
  entry of the composite view, exactly when \<open>c\<close> exists and is preferred to the head, and
  the head in every other case.
\<close>

theorem pending_head_first_invalid:
  assumes "head s = Some h"
  shows "pending_head s =
           Inr (Some (case List.find (\<lambda>b. \<not> valid b) (index s) of
                        None \<Rightarrow> h
                      | Some c \<Rightarrow> if first_preferred c h then c else h))"
proof (cases "lower_bound_false (index s)")
  case Nil
  with lower_bound_false_Nil[of "index s"]
  have "List.find (\<lambda>b. \<not> valid b) (index s) = None" by simp
  with Nil assms show ?thesis by (simp add: pending_head_def)
next
  case (Cons c cs)
  from lower_bound_false_Cons[OF Cons]
  have f: "List.find (\<lambda>b. \<not> valid b) (index s) = Some c" .
  then have "\<not> valid c" by (auto simp: find_Some_iff)
  then show ?thesis using assms Cons f by (simp add: pending_head_def)
qed

theorem pending_head_first_invalid_witness:
  "head ex_two = Some (blk 11 10 11 5 True) \<and>
   pending_head ex_two = Inr (Some (blk 12 11 12 5 False))"
  using pending_head_first_invalid[of ex_two "blk 11 10 11 5 True"]
  by (simp add: ex_two_eq) (simp add: blk_def first_preferred_def)

section \<open>The order of the blocks written by close\<close>

lemma not_first_preferred_trans:
  "\<not> first_preferred a b \<Longrightarrow> \<not> first_preferred b c \<Longrightarrow> \<not> first_preferred a c"
  unfolding first_preferred_def
  by (metis (no_types, lifting) not_less_iff_gr_or_eq order.strict_trans)

lemma first_preferred_asym: "first_preferred a b \<Longrightarrow> \<not> first_preferred b a"
  by (auto simp: first_preferred_def)

lemma by_lib_not_preferred:
  "by_lib_block_num a b \<Longrightarrow> valid a = valid b \<Longrightarrow> \<not> first_preferred b a"
  by (auto simp: by_lib_block_num_def first_preferred_def)

lemma by_lib_valid: "by_lib_block_num a b \<Longrightarrow> valid b \<Longrightarrow> valid a"
  by (auto simp: by_lib_block_num_def)

lemma set_close_merge: "set (close_merge us vs) = set us \<union> set vs"
  by (induction us vs rule: close_merge.induct) auto

lemma mset_close_merge: "mset (close_merge us vs) = mset us + mset vs"
  by (induction us vs rule: close_merge.induct) auto

lemma sorted_close_merge:
  "sorted_wrt (\<lambda>a b. \<not> first_preferred a b) us \<Longrightarrow>
   sorted_wrt (\<lambda>a b. \<not> first_preferred a b) vs \<Longrightarrow>
   sorted_wrt (\<lambda>a b. \<not> first_preferred a b) (close_merge us vs)"
proof (induction us vs rule: close_merge.induct)
  case (2 u us v vs)
  show ?case
  proof (cases "first_preferred v u")
    case True
    then have uv: "\<not> first_preferred u v" by (rule first_preferred_asym)
    have "\<not> first_preferred u y" if "y \<in> set vs" for y
      using 2(4) that uv not_first_preferred_trans[of u v y] by auto
    with 2 True uv show ?thesis by (auto simp: set_close_merge)
  next
    case False
    have "\<not> first_preferred v y" if "y \<in> set us" for y
      using 2(3) that False not_first_preferred_trans[of v u y] by auto
    with 2 False show ?thesis by (auto simp: set_close_merge)
  qed
qed (auto simp: set_close_merge)

lemma dropWhile_valid_invalid:
  assumes "sorted_wrt by_lib_block_num idx" and "b \<in> set (dropWhile valid idx)"
  shows "\<not> valid b"
proof (cases "dropWhile valid idx")
  case Nil
  with assms show ?thesis by simp
next
  case (Cons c cs)
  then have c: "\<not> valid c" using hd_dropWhile[of valid idx] by simp
  have "sorted_wrt by_lib_block_num (takeWhile valid idx @ dropWhile valid idx)"
    using assms(1) by simp
  then have "sorted_wrt by_lib_block_num (c # cs)"
    unfolding sorted_wrt_append Cons by simp
  then have "\<forall>y\<in>set cs. by_lib_block_num c y" by simp
  with c by_lib_valid have "\<forall>y\<in>set cs. \<not> valid y" by blast
  with c assms(2) Cons show ?thesis by auto
qed

lemma sorted_by_lib_rev_part:
  assumes "sorted_wrt by_lib_block_num xs" and "\<forall>a\<in>set xs. \<forall>b\<in>set xs. valid a = valid b"
  shows "sorted_wrt (\<lambda>a b. \<not> first_preferred a b) (rev xs)"
proof -
  have "sorted_wrt (\<lambda>a b. \<not> first_preferred b a) xs"
  proof (rule sorted_wrt_mono_rel[OF _ assms(1)])
    fix x y assume "x \<in> set xs" "y \<in> set xs" "by_lib_block_num x y"
    with assms(2) show "\<not> first_preferred y x" using by_lib_not_preferred by blast
  qed
  then show ?thesis by (simp add: sorted_wrt_rev)
qed

text \<open>
  Claim C3, as stated, fails: \<^verbatim>\<open>close\<close> does not write the entries in descending
  preference order. The two reverse iterators run from the least preferred entry of each
  range, and the loop packs the unvalidated front when the validated front is preferred to
  it. In the example block 11 is written before its child 12, although 11 is not valid and
  is not preferred to 12.
\<close>

theorem close_descending_counterexample:
  "map_option file_blocks (snd (close_impl ex_pending)) =
     Some [blk 11 10 11 5 False, blk 12 11 12 5 False] \<and>
   \<not> valid (blk 11 10 11 5 False) \<and>
   \<not> first_preferred (blk 11 10 11 5 False) (blk 12 11 12 5 False)"
  by (simp add: ex_pending_eq close_impl_def lower_bound_false_def blk_def first_preferred_def)

text \<open>
  Claim C3, amended. On \<^verbatim>\<open>close\<close> with the root set, every index entry is written once,
  in ascending preference order: the merge over the two reverse ranges of the composite
  view (invalid entries, valid entries) packs at each step the unvalidated front when the
  validated front is \<^verbatim>\<open>first_preferred\<close> to it and the validated front otherwise, so
  that for an entry \<open>a\<close> written before an entry \<open>b\<close>, \<open>first_preferred a b\<close> does not
  hold. The index is the composite view, hence sorted by its comparison.
\<close>

theorem close_ascending:
  assumes "root s = Some r" and "sorted_wrt by_lib_block_num (index s)"
  shows "\<exists>f. snd (close_impl s) = Some f \<and>
             file_blocks f =
               close_merge (rev (dropWhile valid (index s))) (rev (takeWhile valid (index s))) \<and>
             mset (file_blocks f) = mset (index s) \<and>
             sorted_wrt (\<lambda>a b. \<not> first_preferred a b) (file_blocks f)"
proof -
  let ?u = "dropWhile valid (index s)" and ?v = "takeWhile valid (index s)"
  have split: "sorted_wrt by_lib_block_num (?v @ ?u)" using assms(2) by simp
  have v: "sorted_wrt (\<lambda>a b. \<not> first_preferred a b) (rev ?v)"
    using split
    by (intro sorted_by_lib_rev_part) (auto simp: sorted_wrt_append dest: set_takeWhileD)
  have u: "sorted_wrt (\<lambda>a b. \<not> first_preferred a b) (rev ?u)"
    using split dropWhile_valid_invalid[OF assms(2)]
    by (intro sorted_by_lib_rev_part) (auto simp: sorted_wrt_append)
  have "mset (?v @ ?u) = mset (index s)" by simp
  then have m: "mset (close_merge (rev ?u) (rev ?v)) = mset (index s)"
    by (simp add: mset_close_merge add.commute del: takeWhile_dropWhile_id)
  show ?thesis using assms(1) u v m sorted_close_merge[OF u v]
    by (simp add: close_impl_def lower_bound_false_def)
qed

theorem close_ascending_witness:
  "root ex_two = Some (blk 10 9 10 5 True) \<and>
   sorted_wrt by_lib_block_num (index ex_two) \<and>
   (\<exists>f. snd (close_impl ex_two) = Some f \<and>
        file_blocks f =
          close_merge (rev (dropWhile valid (index ex_two)))
            (rev (takeWhile valid (index ex_two))) \<and>
        mset (file_blocks f) = mset (index ex_two) \<and>
        sorted_wrt (\<lambda>a b. \<not> first_preferred a b) (file_blocks f))"
  using close_ascending[of ex_two "blk 10 9 10 5 True"]
  by (simp add: ex_two_eq by_lib_block_num_def blk_def)

section \<open>fetch_branch\<close>

lemma fetch_branch_loop_None: "fetch_branch_loop idx t None acc = Some acc"
  by (subst fetch_branch_loop.simps) simp

lemma fetch_branch_loop_Some:
  "fetch_branch_loop idx t (Some b) acc =
     fetch_branch_loop idx t (index_find idx (previous b))
       (if block_num b \<le> t then acc @ [b] else acc)"
  by (subst fetch_branch_loop.simps) simp

lemma is_branch_unique: "is_branch idx h br \<Longrightarrow> is_branch idx h br' \<Longrightarrow> br = br'"
proof (induction br arbitrary: h br')
  case Nil
  then show ?case by (cases br') auto
next
  case (Cons b br)
  then show ?case by (cases br') auto
qed

lemma is_branch_subset: "is_branch idx h br \<Longrightarrow> set br \<subseteq> set idx"
  by (induction br arbitrary: h) (auto dest: index_find_Some_mem)


lemma fetch_branch_loop_Some_branch:
  assumes "\<forall>n\<in>set idx. \<forall>p\<in>set idx. previous n = block_id p \<longrightarrow> block_num p < block_num n"
    and "index_find idx h = Some b"
  shows "\<exists>br. is_branch idx h (b # br) \<and>
              fetch_branch_loop idx t (Some b) acc =
                Some (acc @ filter (\<lambda>x. block_num x \<le> t) (b # br)) \<and>
              (\<forall>x\<in>set br. block_num x < block_num b) \<and>
              sorted_wrt (\<lambda>x y. block_num y < block_num x) (b # br)"
  using assms(2)
proof (induction "unat (block_num b)" arbitrary: h b acc rule: less_induct)
  case less
  show ?case
  proof (cases "index_find idx (previous b)")
    case None
    with less.prems show ?thesis
      by (intro exI[of _ "[]"]) (simp add: fetch_branch_loop_Some fetch_branch_loop_None)
  next
    case (Some p)
    have "b \<in> set idx" "p \<in> set idx" "block_id p = previous b"
      using less.prems Some by (auto dest: index_find_Some_mem)
    with assms(1) have lt: "block_num p < block_num b" by auto
    then have "unat (block_num p) < unat (block_num b)" by (simp add: word_less_nat_alt)
    from less.hyps[OF this Some, of "if block_num b \<le> t then acc @ [b] else acc"]
    obtain br where br: "is_branch idx (previous b) (p # br)"
      "fetch_branch_loop idx t (Some p) (if block_num b \<le> t then acc @ [b] else acc) =
         Some ((if block_num b \<le> t then acc @ [b] else acc) @ filter (\<lambda>x. block_num x \<le> t) (p # br))"
      "\<forall>x\<in>set br. block_num x < block_num p"
      "sorted_wrt (\<lambda>x y. block_num y < block_num x) (p # br)" by blast
    have "is_branch idx h (b # p # br)" using less.prems br(1) by simp
    moreover have "fetch_branch_loop idx t (Some b) acc = Some (acc @ filter (\<lambda>x. block_num x \<le> t) (b # p # br))"
      using br(2) Some by (simp add: fetch_branch_loop_Some)
    moreover have "\<forall>x\<in>set (p # br). block_num x < block_num b"
      using br(3) lt by auto
    moreover have "sorted_wrt (\<lambda>x y. block_num y < block_num x) (b # p # br)"
      using br(3,4) lt by auto
    ultimately show ?thesis by blast
  qed
qed


lemma is_branch_last:
  "is_branch idx h br \<Longrightarrow> br \<noteq> [] \<Longrightarrow> index_find idx (previous (last br)) = None"
  by (induction br arbitrary: h) (auto split: if_splits)

lemma block_num_linked_less:
  assumes "block_num_linked r idx" and "n \<in> set idx" and "p \<in> set idx"
    and "previous n = block_id p"
  shows "block_num p < block_num n"
proof -
  from assms have "unat (block_num n) = Suc (unat (block_num p))"
    unfolding block_num_linked_def by simp
  then show ?thesis by (simp add: word_less_nat_alt)
qed

text \<open>
  The branch in a tree of the data model. In a tree with the root set, unique ids, resolving parent links and block
  numbers that grow by one from parent to child, \<^verbatim>\<open>fetch_branch(h, trim_after)\<close> returns:
  the branch of \<open>h\<close> is the one list \<open>br\<close> of index nodes that starts at \<open>h\<close> and follows
  \<^verbatim>\<open>previous\<close> while the index has the parent; it is in strictly descending order of
  block number, does not hold the root, and its last node is a child of the root. The
  result is \<open>br\<close> without the nodes above \<open>trim_after\<close>, and all of \<open>br\<close> for
  \<open>trim_after = 0xFFFFFFFF\<close>. In particular the walk ends.
\<close>

lemma fetch_branch_tree:
  assumes "root s = Some r" and "ids_unique r (index s)"
    and "previous_resolves r (index s)" and "block_num_linked r (index s)"
  shows "\<exists>br. is_branch (index s) h br \<and>
              (\<forall>br'. is_branch (index s) h br' \<longrightarrow> br' = br) \<and>
              fetch_branch_impl s h trim_after =
                Some (filter (\<lambda>b. block_num b \<le> trim_after) br) \<and>
              fetch_branch_impl s h (- 1) = Some br \<and>
              sorted_wrt (\<lambda>x y. block_num y < block_num x) br \<and>
              set br \<subseteq> set (index s) \<and> r \<notin> set br \<and>
              (br \<noteq> [] \<longrightarrow> previous (last br) = block_id r)"
proof -
  let ?idx = "index s"
  have lt: "\<forall>n\<in>set ?idx. \<forall>p\<in>set ?idx. previous n = block_id p \<longrightarrow> block_num p < block_num n"
    using block_num_linked_less[OF assms(4)] by blast
  have ex: "\<exists>br. is_branch ?idx h br \<and>
              (\<forall>t. fetch_branch_loop ?idx t (index_find ?idx h) [] =
                Some (filter (\<lambda>b. block_num b \<le> t) br)) \<and>
              sorted_wrt (\<lambda>x y. block_num y < block_num x) br"
  proof (cases "index_find ?idx h")
    case None
    then show ?thesis by (intro exI[of _ "[]"]) (simp add: fetch_branch_loop_None)
  next
    case (Some b)
    from fetch_branch_loop_Some_branch[OF lt Some, of _ "[]"]
    have "\<forall>t. \<exists>br. is_branch ?idx h (b # br) \<and>
              fetch_branch_loop ?idx t (Some b) [] =
                Some (filter (\<lambda>x. block_num x \<le> t) (b # br)) \<and>
              sorted_wrt (\<lambda>x y. block_num y < block_num x) (b # br)"
      by (metis append_Nil)
    then obtain br0 where br0: "is_branch ?idx h (b # br0)"
      "sorted_wrt (\<lambda>x y. block_num y < block_num x) (b # br0)" by blast
    have "fetch_branch_loop ?idx t (Some b) [] =
                Some (filter (\<lambda>x. block_num x \<le> t) (b # br0))" for t
    proof -
      from \<open>\<forall>t. \<exists>br. _ t br\<close> obtain br where br: "is_branch ?idx h (b # br)"
        "fetch_branch_loop ?idx t (Some b) [] = Some (filter (\<lambda>x. block_num x \<le> t) (b # br))"
        by blast
      from is_branch_unique[OF br(1) br0(1)] br(2) show ?thesis by simp
    qed
    with br0 Some show ?thesis by (intro exI[of _ "b # br0"]) simp
  qed
  then obtain br where br: "is_branch ?idx h br"
    "\<And>t. fetch_branch_loop ?idx t (index_find ?idx h) [] =
                Some (filter (\<lambda>b. block_num b \<le> t) br)"
    "sorted_wrt (\<lambda>x y. block_num y < block_num x) br" by blast
  have sub: "set br \<subseteq> set ?idx" using br(1) by (rule is_branch_subset)
  have "r \<notin> set ?idx" using assms(2) by (auto simp: ids_unique_def)
  with sub have r: "r \<notin> set br" by blast
  have full: "fetch_branch_impl s h (- 1) = Some br"
    using br(2)[of "- 1"] by (simp add: fetch_branch_impl_def get_block_impl_def)
  have last: "previous (last br) = block_id r" if "br \<noteq> []"
  proof -
    from that sub have "last br \<in> set ?idx" using last_in_set by blast
    with assms(3) have "previous (last br) = block_id r \<or>
        previous (last br) \<in> block_id ` set ?idx"
      by (simp add: previous_resolves_def)
    moreover from is_branch_last[OF br(1) that]
    have "previous (last br) \<notin> block_id ` set ?idx" by (simp add: index_find_None)
    ultimately show ?thesis by blast
  qed
  have uniq: "\<forall>br'. is_branch ?idx h br' \<longrightarrow> br' = br"
    using is_branch_unique[OF _ br(1)] by blast
  have trim: "fetch_branch_impl s h trim_after =
                Some (filter (\<lambda>b. block_num b \<le> trim_after) br)"
    using br(2)[of trim_after] by (simp add: fetch_branch_impl_def get_block_impl_def)
  from br(1) uniq trim full br(3) sub r last show ?thesis by blast
qed

lemmas inv_defs = ids_unique_def previous_resolves_def block_num_linked_def
  irreversible_monotone_def

lemma fetch_branch_loop_branch:
  assumes "is_branch idx h br"
  shows "fetch_branch_loop idx t (index_find idx h) acc =
           Some (acc @ filter (\<lambda>b. block_num b \<le> t) br)"
  using assms
proof (induction br arbitrary: h acc)
  case Nil
  then show ?case by (simp add: fetch_branch_loop_None)
next
  case (Cons b br)
  then have b: "index_find idx h = Some b" "is_branch idx (previous b) br" by simp_all
  from Cons.IH[OF b(2)] b(1) show ?case by (simp add: fetch_branch_loop_Some)
qed

text \<open>
  Claim C9, amended. In every tree, when the index holds a branch \<open>br\<close> of \<open>h\<close>, the list
  of index nodes that starts at \<open>h\<close> and follows \<^verbatim>\<open>previous\<close> until the index has no
  parent, \<^verbatim>\<open>fetch_branch(h, trim_after)\<close> returns \<open>br\<close> without the nodes above
  \<open>trim_after\<close>, and all of \<open>br\<close> for \<open>trim_after = 0xFFFFFFFF\<close>. In a tree with the root
  set, unique ids, resolving parent links and block numbers that grow by one from parent
  to child, there is such a branch for every \<open>h\<close> and only one, so that the walk ends; it
  is in strictly descending order of block number, does not hold the root, and its last
  node is a child of the root.
\<close>

theorem fetch_branch_is_branch:
  "(is_branch (index s) h br \<longrightarrow>
      fetch_branch_impl s h trim_after = Some (filter (\<lambda>b. block_num b \<le> trim_after) br) \<and>
      fetch_branch_impl s h (- 1) = Some br \<and> set br \<subseteq> set (index s)) \<and>
   (root s = Some r \<and> ids_unique r (index s) \<and> previous_resolves r (index s) \<and>
    block_num_linked r (index s) \<longrightarrow>
      (\<exists>br. is_branch (index s) h br \<and>
            (\<forall>br'. is_branch (index s) h br' \<longrightarrow> br' = br) \<and>
            fetch_branch_impl s h trim_after =
              Some (filter (\<lambda>b. block_num b \<le> trim_after) br) \<and>
            fetch_branch_impl s h (- 1) = Some br \<and>
            sorted_wrt (\<lambda>x y. block_num y < block_num x) br \<and>
            set br \<subseteq> set (index s) \<and> r \<notin> set br \<and>
            (br \<noteq> [] \<longrightarrow> previous (last br) = block_id r)))"
proof (intro conjI impI)
  assume b: "is_branch (index s) h br"
  from fetch_branch_loop_branch[OF b, of _ "[]"]
  have l: "fetch_branch_impl s h t = Some (filter (\<lambda>b. block_num b \<le> t) br)" for t
    by (simp add: fetch_branch_impl_def get_block_impl_def)
  from l[of trim_after]
  show "fetch_branch_impl s h trim_after = Some (filter (\<lambda>b. block_num b \<le> trim_after) br)" .
  have "filter (\<lambda>b. block_num b \<le> (- 1 :: 32 word)) br = br" by simp
  with l[of "- 1"] show "fetch_branch_impl s h (- 1) = Some br" by simp
  from is_branch_subset[OF b] show "set br \<subseteq> set (index s)" .
next
  assume "root s = Some r \<and> ids_unique r (index s) \<and> previous_resolves r (index s) \<and>
    block_num_linked r (index s)"
  then have t: "root s = Some r" "ids_unique r (index s)" "previous_resolves r (index s)"
    "block_num_linked r (index s)" by simp_all
  from fetch_branch_tree[OF t, of h trim_after]
  show "\<exists>br. is_branch (index s) h br \<and>
            (\<forall>br'. is_branch (index s) h br' \<longrightarrow> br' = br) \<and>
            fetch_branch_impl s h trim_after =
              Some (filter (\<lambda>b. block_num b \<le> trim_after) br) \<and>
            fetch_branch_impl s h (- 1) = Some br \<and>
            sorted_wrt (\<lambda>x y. block_num y < block_num x) br \<and>
            set br \<subseteq> set (index s) \<and> r \<notin> set br \<and>
            (br \<noteq> [] \<longrightarrow> previous (last br) = block_id r)" .
qed

theorem fetch_branch_is_branch_witness:
  "root ex_two = Some (blk 10 9 10 5 True) \<and>
   ids_unique (blk 10 9 10 5 True) (index ex_two) \<and>
   previous_resolves (blk 10 9 10 5 True) (index ex_two) \<and>
   block_num_linked (blk 10 9 10 5 True) (index ex_two) \<and>
   is_branch (index ex_two) 12 [blk 12 11 12 5 False, blk 11 10 11 5 True] \<and>
   fetch_branch_impl ex_two 12 11 = Some [blk 11 10 11 5 True] \<and>
   fetch_branch_impl ex_two 12 (- 1) = Some [blk 12 11 12 5 False, blk 11 10 11 5 True] \<and>
   is_branch (index ex_orphan) 12 [blk 12 11 12 5 False] \<and>
   fetch_branch_impl ex_orphan 12 (- 1) = Some [blk 12 11 12 5 False]"
proof -
  have h: "root ex_two = Some (blk 10 9 10 5 True)"
    "ids_unique (blk 10 9 10 5 True) (index ex_two)"
    "previous_resolves (blk 10 9 10 5 True) (index ex_two)"
    "block_num_linked (blk 10 9 10 5 True) (index ex_two)"
    by (simp_all add: ex_two_eq inv_defs blk_def)
  have b: "is_branch (index ex_two) 12 [blk 12 11 12 5 False, blk 11 10 11 5 True]"
    by (simp add: ex_two_eq index_find_def blk_def)
  from fetch_branch_is_branch[of ex_two 12 _ 11 "blk 10 9 10 5 True"] h obtain br where
    br: "is_branch (index ex_two) 12 br"
      "\<forall>br'. is_branch (index ex_two) 12 br' \<longrightarrow> br' = br"
      "fetch_branch_impl ex_two 12 11 = Some (filter (\<lambda>b. block_num b \<le> 11) br)"
      "fetch_branch_impl ex_two 12 (- 1) = Some br" by blast
  from br(2) b have "br = [blk 12 11 12 5 False, blk 11 10 11 5 True]" by blast
  with br(3,4) have e: "fetch_branch_impl ex_two 12 11 = Some [blk 11 10 11 5 True]"
    "fetch_branch_impl ex_two 12 (- 1) = Some [blk 12 11 12 5 False, blk 11 10 11 5 True]"
    by (simp_all add: blk_def)
  have o: "is_branch (index ex_orphan) 12 [blk 12 11 12 5 False]"
    by (simp add: ex_orphan_eq index_find_def blk_def)
  from fetch_branch_is_branch[of ex_orphan 12 "[blk 12 11 12 5 False]"] o
  have "fetch_branch_impl ex_orphan 12 (- 1) = Some [blk 12 11 12 5 False]" by blast
  with h b e o show ?thesis by simp
qed

lemma fetch_branch_loop_cycle:
  fixes idx :: "'a fork_multi_index_type"
  assumes "fetch_branch_loop idx t s acc = Some out"
  shows "\<forall>b. s = Some b \<and> index_find idx (previous b) = Some b \<longrightarrow> False"
  by (rule fetch_branch_loop.raw_induct[OF _ assms]) (auto split: option.splits)

lemma fetch_branch_loop_cycle_None:
  assumes "index_find idx (previous b) = Some b"
  shows "fetch_branch_loop idx t (Some b) acc = None"
proof (cases "fetch_branch_loop idx t (Some b) acc")
  case None
  then show ?thesis .
next
  case (Some out)
  from fetch_branch_loop_cycle[OF Some] assms show ?thesis by blast
qed

text \<open>
  Claim C9, as stated for every id, fails outside the trees of the data model, which
  \<^verbatim>\<open>add\<close> does not enforce. With a block below its parent in block number the result is
  not in descending order of block number. With a block that has the id of the root and
  the root as parent the walk finds that block as its own parent and never returns. In
  the tree that a failed \<^verbatim>\<open>advance_root\<close> leaves, the branch of block 12 ends at 12,
  whose parent is not the root.
\<close>

theorem fetch_branch_counterexample:
  "fetch_branch_impl ex_low 12 (- 1) = Some [blk 12 11 5 5 False, blk 11 10 11 5 True] \<and>
   block_num (blk 12 11 5 5 False) < block_num (blk 11 10 11 5 True) \<and>
   get_block_impl ex_dup_root 10 = Some (blk 10 10 11 5 True) \<and>
   fetch_branch_impl ex_dup_root 10 (- 1) = None \<and>
   root ex_orphan = Some (blk 10 9 10 5 True) \<and>
   fetch_branch_impl ex_orphan 12 (- 1) = Some [blk 12 11 12 5 False] \<and>
   previous (blk 12 11 12 5 False) \<noteq> 10"
proof -
  have a: "fetch_branch_impl ex_low 12 (- 1) = Some [blk 12 11 5 5 False, blk 11 10 11 5 True]"
    "block_num (blk 12 11 5 5 False) < block_num (blk 11 10 11 5 True)"
    by (simp_all add: ex_low_eq fetch_branch_impl_def get_block_impl_def index_find_def
          fetch_branch_loop.simps blk_def)
  have b: "get_block_impl ex_dup_root 10 = Some (blk 10 10 11 5 True)"
    by (simp add: ex_dup_root_eq get_block_impl_def index_find_def blk_def)
  have "index_find (index ex_dup_root) (previous (blk 10 10 11 5 True)) = Some (blk 10 10 11 5 True)"
    by (simp add: ex_dup_root_eq index_find_def blk_def)
  from fetch_branch_loop_cycle_None[OF this] b
  have c: "fetch_branch_impl ex_dup_root 10 (- 1) = None" by (simp add: fetch_branch_impl_def)
  have d: "root ex_orphan = Some (blk 10 9 10 5 True)"
    "fetch_branch_impl ex_orphan 12 (- 1) = Some [blk 12 11 12 5 False]"
    "previous (blk 12 11 12 5 False) \<noteq> 10"
    by (simp_all add: ex_orphan_eq fetch_branch_impl_def get_block_impl_def index_find_def
          fetch_branch_loop.simps blk_def)
  from a b c d show ?thesis by simp
qed

section \<open>remove: the queue of ids\<close>

lemma descends_in_index: "descends idx a n \<Longrightarrow> n \<in> set idx"
  by (induction rule: descends.induct) auto

lemma descends_block_num:
  assumes "index_acyclic idx" and "m \<in> set idx" and "descends idx (block_id m) n"
  shows "block_num m < block_num n"
  using assms(3)
proof (induction rule: descends.induct)
  case (child n)
  with assms(1,2) show ?case by (simp add: index_acyclic_def)
next
  case (step n p)
  from assms(1) step(1,2,3) have "block_num p < block_num n" by (simp add: index_acyclic_def)
  with step(5) show ?case by simp
qed

lemma subtree_ids_children:
  assumes "x \<in> subtree_ids idx a"
  shows "set (map block_id (by_prev_range idx x)) \<subseteq> subtree_ids idx a"
proof
  fix c assume "c \<in> set (map block_id (by_prev_range idx x))"
  then obtain n where n: "n \<in> set idx" "previous n = x" "c = block_id n"
    by (auto simp: by_prev_range_def)
  from assms have "x = a \<or> (\<exists>m. descends idx a m \<and> x = block_id m)"
    by (auto simp: subtree_ids_def)
  then have "descends idx a n"
  proof
    assume "x = a" with n show ?thesis by (simp add: descends.child)
  next
    assume "\<exists>m. descends idx a m \<and> x = block_id m"
    then obtain m where m: "descends idx a m" "x = block_id m" by blast
    with n descends_in_index[OF m(1)] show ?thesis by (simp add: descends.step)
  qed
  with n(3) show "c \<in> subtree_ids idx a" by (simp add: subtree_ids_def)
qed

lemma subtree_ids_least:
  assumes "a \<in> S" and "\<forall>x\<in>S. set (map block_id (by_prev_range idx x)) \<subseteq> S"
  shows "subtree_ids idx a \<subseteq> S"
proof -
  have "block_id n \<in> S" if "descends idx a n" for n
    using that
  proof (induction rule: descends.induct)
    case (child n)
    then have "block_id n \<in> set (map block_id (by_prev_range idx a))"
      by (simp add: by_prev_range_def)
    with assms show ?case by blast
  next
    case (step n m)
    then have "block_id n \<in> set (map block_id (by_prev_range idx (block_id m)))"
      by (simp add: by_prev_range_def)
    with assms(2) step(5) show ?case by blast
  qed
  with assms(1) show ?thesis by (auto simp: subtree_ids_def)
qed

lemma subtree_ids_subset: "subtree_ids idx a \<subseteq> insert a (block_id ` set idx)"
  by (auto simp: subtree_ids_def dest: descends_in_index)

lemma distinct_ids_eq:
  "distinct (map block_id idx) \<Longrightarrow> n \<in> set idx \<Longrightarrow> m \<in> set idx \<Longrightarrow>
   block_id n = block_id m \<Longrightarrow> n = m"
  by (meson distinct_map inj_on_def)

lemma remove_inv_length:
  assumes "remove_inv idx a hid q k"
  shows "length q \<le> Suc (length idx)"
proof -
  from assms have d: "distinct q" and s: "set q \<subseteq> subtree_ids idx a"
    by (simp_all add: remove_inv_def)
  from s subtree_ids_subset[of idx a] have "set q \<subseteq> insert a (block_id ` set idx)" by blast
  then have "card (set q) \<le> card (insert a (block_id ` set idx))"
    by (intro card_mono) auto
  also have "\<dots> \<le> Suc (card (block_id ` set idx))" by (simp add: card_insert_le_m1)
  also have "\<dots> \<le> Suc (length idx)"
    using card_image_le[of "set idx" block_id] card_length[of idx] by simp
  finally show ?thesis using d by (simp add: distinct_card)
qed


lemma remove_inv_step:
  assumes ac: "index_acyclic idx" and di: "distinct (map block_id idx)"
    and inv: "remove_inv idx a hid q k" and k: "k < length q" and nh: "q ! k \<noteq> hid"
  shows "remove_inv idx a hid (q @ map block_id (by_prev_range idx (q ! k))) (Suc k)"
proof -
  let ?cs = "map block_id (by_prev_range idx (q ! k))"
  let ?q = "q @ ?cs"
  from inv have q0: "q \<noteq> []" "q ! 0 = a" and dq: "distinct q"
    and sub: "set q \<subseteq> subtree_ids idx a"
    and closed: "\<forall>j<k. set (map block_id (by_prev_range idx (q ! j))) \<subseteq> set q"
    and checked: "\<forall>j<k. q ! j \<noteq> hid"
    and enq: "\<forall>m. 0 < m \<and> m < length q \<longrightarrow>
           (\<exists>n\<in>set idx. block_id n = q ! m \<and> (\<exists>j<k. previous n = q ! j))"
    by (simp_all add: remove_inv_def)
  have nth_old: "?q ! j = q ! j" if "j < length q" for j
    using that by (simp add: nth_append)
  have qk: "q ! k \<in> subtree_ids idx a" using sub k by auto
  have cs_sub: "set ?cs \<subseteq> subtree_ids idx a" by (rule subtree_ids_children[OF qk])
  have dcs: "distinct ?cs"
    using di unfolding by_prev_range_def by (rule distinct_map_filter)
  have disj: "c \<notin> set q" if c: "c \<in> set ?cs" for c
  proof
    assume "c \<in> set q"
    then obtain m where m: "m < length q" "q ! m = c" by (auto simp: in_set_conv_nth)
    from c obtain n where n: "n \<in> set idx" "previous n = q ! k" "c = block_id n"
      by (auto simp: by_prev_range_def)
    show False
    proof (cases "m = 0")
      case True
      with m q0 n have an: "a = block_id n" by simp
      from qk have "q ! k = a \<or> (\<exists>n'. descends idx a n' \<and> q ! k = block_id n')"
        by (auto simp: subtree_ids_def)
      then show False
      proof
        assume "q ! k = a"
        with n an have "previous n = block_id n" by simp
        with ac n(1) have "block_num n < block_num n" unfolding index_acyclic_def by blast
        then show False by simp
      next
        assume "\<exists>n'. descends idx a n' \<and> q ! k = block_id n'"
        then obtain n' where n': "descends idx a n'" "q ! k = block_id n'" by blast
        from descends_block_num[OF ac n(1)] n'(1) an have "block_num n < block_num n'" by simp
        moreover from ac n(1,2) n'(2) descends_in_index[OF n'(1)]
        have "block_num n' < block_num n" unfolding index_acyclic_def by metis
        ultimately show False by simp
      qed
    next
      case False
      with m enq obtain n2 j where n2: "n2 \<in> set idx" "block_id n2 = q ! m" "j < k"
        "previous n2 = q ! j" by auto
      from distinct_ids_eq[OF di n(1) n2(1)] n(3) m(2) n2(2) have "n = n2" by simp
      with n(2) n2(4) have "q ! k = q ! j" by simp
      with dq k n2(3) show False by (simp add: nth_eq_iff_index_eq)
    qed
  qed
  have "distinct ?q" using dq dcs disj by auto
  moreover have "set ?q \<subseteq> subtree_ids idx a" using sub cs_sub by simp
  moreover have "\<forall>j<Suc k. set (map block_id (by_prev_range idx (?q ! j))) \<subseteq> set ?q"
  proof (intro allI impI)
    fix j assume j: "j < Suc k"
    show "set (map block_id (by_prev_range idx (?q ! j))) \<subseteq> set ?q"
    proof (cases "j = k")
      case True
      with k show ?thesis by (simp add: nth_append)
    next
      case False
      with j have jk: "j < k" by simp
      with k have "?q ! j = q ! j" by (simp add: nth_append)
      with closed jk show ?thesis by auto
    qed
  qed
  moreover have "\<forall>j<Suc k. ?q ! j \<noteq> hid"
  proof (intro allI impI)
    fix j assume j: "j < Suc k"
    with k have "?q ! j = q ! j" by (simp add: nth_append)
    with checked nh j show "?q ! j \<noteq> hid" by (cases "j = k") auto
  qed
  moreover have "\<forall>m. 0 < m \<and> m < length ?q \<longrightarrow>
           (\<exists>n\<in>set idx. block_id n = ?q ! m \<and> (\<exists>j<Suc k. previous n = ?q ! j))"
  proof (intro allI impI)
    fix m assume m: "0 < m \<and> m < length ?q"
    show "\<exists>n\<in>set idx. block_id n = ?q ! m \<and> (\<exists>j<Suc k. previous n = ?q ! j)"
    proof (cases "m < length q")
      case True
      with m enq obtain n j where n: "n \<in> set idx" "block_id n = q ! m" "j < k"
        "previous n = q ! j" by auto
      from n(3) k have qj: "?q ! j = q ! j" by (simp add: nth_append)
      from True have qm: "?q ! m = q ! m" by (simp add: nth_append)
      from n(3) have "j < Suc k" by simp
      with n(4) qj have "\<exists>j<Suc k. previous n = ?q ! j" by metis
      with n(1,2) qm show ?thesis by metis
    next
      case False
      with m have "m - length q < length ?cs" by auto
      then have "?cs ! (m - length q) \<in> set ?cs" by (rule nth_mem)
      with False have "?q ! m \<in> set ?cs" by (simp add: nth_append)
      then obtain n where n: "n \<in> set idx" "previous n = q ! k" "?q ! m = block_id n"
        by (auto simp: by_prev_range_def)
      from k have "?q ! k = q ! k" by (simp add: nth_append)
      with n(2) have "\<exists>j<Suc k. previous n = ?q ! j" by (metis lessI)
      with n(1,3) show ?thesis by metis
    qed
  qed
  moreover have "Suc k \<le> length ?q" "?q \<noteq> []" "?q ! 0 = a"
    using k q0 by (simp_all add: nth_append)
  ultimately show ?thesis unfolding remove_inv_def by blast
qed


lemma unat_Suc_32: "Suc (unat (i::32 word)) < 2 ^ 32 \<Longrightarrow> unat (i + 1) = Suc (unat i)"
  using unat_add_lem[of i 1] by simp

lemma fold_index_erase: "fold index_erase q idx = filter (\<lambda>n. block_id n \<notin> set q) idx"
  by (induction q arbitrary: idx) (auto simp: index_erase_def intro: filter_cong)

lemma remove_queue_loop_result:
  assumes ac: "index_acyclic idx" and di: "distinct (map block_id idx)"
    and bound: "Suc (length idx) < 2 ^ 32"
    and inv: "remove_inv idx a hid q (unat i)"
  shows "(hid \<in> subtree_ids idx a \<longrightarrow>
            remove_queue_loop idx hid q i = Some (Inl would_remove_head)) \<and>
         (hid \<notin> subtree_ids idx a \<longrightarrow>
            (\<exists>q'. remove_queue_loop idx hid q i = Some (Inr q') \<and> set q' = subtree_ids idx a))"
  using inv
proof (induction "Suc (length idx) - unat i" arbitrary: q i rule: less_induct)
  case less
  note inv = less.prems
  from inv have kle: "unat i \<le> length q" and q0: "q \<noteq> []" "q ! 0 = a"
    and sub: "set q \<subseteq> subtree_ids idx a"
    and closed: "\<forall>j<unat i. set (map block_id (by_prev_range idx (q ! j))) \<subseteq> set q"
    and checked: "\<forall>j<unat i. q ! j \<noteq> hid"
    by (simp_all add: remove_inv_def)
  have len: "length q \<le> Suc (length idx)" by (rule remove_inv_length[OF inv])
  show ?case
  proof (cases "unat i < length q")
    case False
    with kle have eq: "unat i = length q" by simp
    have loop: "remove_queue_loop idx hid q i = Some (Inr q)"
      using False by (subst remove_queue_loop.simps) simp
    have "a \<in> set q" using q0 by (metis length_greater_0_conv nth_mem)
    moreover have "\<forall>x\<in>set q. set (map block_id (by_prev_range idx x)) \<subseteq> set q"
      using closed eq by (metis in_set_conv_nth)
    ultimately have "subtree_ids idx a \<subseteq> set q" by (rule subtree_ids_least)
    with sub have seq: "set q = subtree_ids idx a" by blast
    have "hid \<notin> set q" using checked eq by (metis in_set_conv_nth)
    with seq loop show ?thesis by simp
  next
    case True
    show ?thesis
    proof (cases "q ! unat i = hid")
      case h: True
      have loop: "remove_queue_loop idx hid q i = Some (Inl would_remove_head)"
        using True h by (subst remove_queue_loop.simps) simp
      from True h have "hid \<in> set q" by (metis nth_mem)
      with sub loop show ?thesis by auto
    next
      case h: False
      let ?q = "q @ map block_id (by_prev_range idx (q ! unat i))"
      from True len bound have "Suc (unat i) < 2 ^ 32" by simp
      then have suc: "unat (i + 1) = Suc (unat i)" by (rule unat_Suc_32)
      have loop: "remove_queue_loop idx hid q i = remove_queue_loop idx hid ?q (i + 1)"
        using True h by (subst remove_queue_loop.simps) simp
      have inv': "remove_inv idx a hid ?q (unat (i + 1))"
        unfolding suc by (rule remove_inv_step[OF ac di inv True h])
      have "Suc (length idx) - unat (i + 1) < Suc (length idx) - unat i"
        using suc True len by simp
      from less.hyps[OF this inv'] loop show ?thesis by simp
    qed
  qed
qed

lemma remove_inv_init: "remove_inv idx a hid [a] (unat (0::32 word))"
  by (auto simp: remove_inv_def subtree_ids_def)

lemma remove_impl_result:
  assumes "head s = Some h" and "index_acyclic (index s)"
    and "distinct (map block_id (index s))" and "Suc (length (index s)) < 2 ^ 32"
  shows "remove_impl s a =
           Some (if block_id h \<in> subtree_ids (index s) a then Threw would_remove_head s
                 else Returned (s\<lparr>index :=
                        filter (\<lambda>n. block_id n \<notin> subtree_ids (index s) a) (index s)\<rparr>))"
proof (cases "block_id h \<in> subtree_ids (index s) a")
  case True
  with remove_queue_loop_result[OF assms(2,3,4) remove_inv_init, of "block_id h" a]
  have "remove_queue_loop (index s) (block_id h) [a] 0 = Some (Inl would_remove_head)" by simp
  with assms(1) True show ?thesis by (simp add: remove_impl_def)
next
  case False
  with remove_queue_loop_result[OF assms(2,3,4) remove_inv_init, of "block_id h" a]
  obtain q' where "remove_queue_loop (index s) (block_id h) [a] 0 = Some (Inr q')"
    "set q' = subtree_ids (index s) a" by auto
  with assms(1) False show ?thesis by (simp add: remove_impl_def fold_index_erase)
qed

section \<open>remove\<close>

lemma descends_mono:
  assumes "set idx' \<subseteq> set idx" and "descends idx' a n"
  shows "descends idx a n"
  using assms(2)
proof (induction rule: descends.induct)
  case (child n)
  with assms(1) show ?case by (auto intro: descends.child)
next
  case (step n m)
  with assms(1) show ?case by (auto intro: descends.step)
qed

lemma descends_ancestor_known:
  assumes "previous_resolves r idx" and "descends idx a n"
  shows "a = block_id r \<or> a \<in> block_id ` set idx"
  using assms(2)
proof (induction rule: descends.induct)
  case (child n)
  with assms(1) show ?case unfolding previous_resolves_def by blast
next
  case (step n m)
  then show ?case by simp
qed

lemma block_num_linked_acyclic: "block_num_linked r idx \<Longrightarrow> index_acyclic idx"
  unfolding index_acyclic_def using block_num_linked_less by blast

lemma subtree_ids_member:
  assumes "distinct (map block_id idx)" and "n \<in> set idx"
  shows "block_id n \<in> subtree_ids idx a \<longleftrightarrow> block_id n = a \<or> descends idx a n"
proof
  assume "block_id n \<in> subtree_ids idx a"
  then have "block_id n = a \<or> (\<exists>m. descends idx a m \<and> block_id m = block_id n)"
    by (auto simp: subtree_ids_def)
  then show "block_id n = a \<or> descends idx a n"
  proof
    assume "\<exists>m. descends idx a m \<and> block_id m = block_id n"
    then obtain m where m: "descends idx a m" "block_id m = block_id n" by blast
    from distinct_ids_eq[OF assms(1) descends_in_index[OF m(1)] assms(2) m(2)] m(1)
    show ?thesis by simp
  qed simp
next
  assume "block_id n = a \<or> descends idx a n"
  then show "block_id n \<in> subtree_ids idx a" by (auto simp: subtree_ids_def)
qed

lemma filter_subtree_ids:
  assumes "distinct (map block_id idx)"
  shows "filter (\<lambda>n. block_id n \<notin> subtree_ids idx a) idx =
         filter (\<lambda>n. block_id n \<noteq> a \<and> \<not> descends idx a n) idx"
  by (rule filter_cong[OF refl]) (simp add: subtree_ids_member[OF assms])

text \<open>
  Claim C6, amended. In a tree that satisfies the invariants of the data model and has
  fewer than \<open>2\<^sup>3\<^sup>2 - 1\<close> nodes (the loop counter is a \<^verbatim>\<open>uint32_t\<close>), \<^verbatim>\<open>remove(a)\<close>
  returns or throws, and it throws, with the message of "would remove head", exactly when
  the head id is \<open>a\<close> or the id of a descendant of \<open>a\<close>; the state is then as before. Otherwise
  it erases \<open>a\<close> and the descendants of \<open>a\<close> and nothing else, no node that is left descends
  from \<open>a\<close>, and for an id that is neither in the index nor the root id nothing is erased.
\<close>

theorem remove_subtree:
  assumes "root s = Some r" and "head s = Some h"
    and "ids_unique r (index s)" and "previous_resolves r (index s)"
    and "block_num_linked r (index s)" and "Suc (length (index s)) < 2 ^ 32"
  shows "remove_impl s a =
           Some (if block_id h = a \<or> (\<exists>n. descends (index s) a n \<and> block_id n = block_id h)
                 then Threw would_remove_head s
                 else Returned (s\<lparr>index :=
                        filter (\<lambda>n. block_id n \<noteq> a \<and> \<not> descends (index s) a n) (index s)\<rparr>)) \<and>
         (\<forall>n\<in>set (filter (\<lambda>n. block_id n \<noteq> a \<and> \<not> descends (index s) a n) (index s)).
            \<not> descends (filter (\<lambda>n. block_id n \<noteq> a \<and> \<not> descends (index s) a n) (index s)) a n) \<and>
         (a \<notin> block_id ` set (index s) \<and> a \<noteq> block_id r \<longrightarrow>
            filter (\<lambda>n. block_id n \<noteq> a \<and> \<not> descends (index s) a n) (index s) = index s)"
proof -
  let ?idx = "index s"
  let ?keep = "\<lambda>n. block_id n \<noteq> a \<and> \<not> descends ?idx a n"
  have di: "distinct (map block_id ?idx)" using assms(3) by (simp add: ids_unique_def)
  have ac: "index_acyclic ?idx" by (rule block_num_linked_acyclic[OF assms(5)])
  have cond: "block_id h \<in> subtree_ids ?idx a \<longleftrightarrow>
        block_id h = a \<or> (\<exists>n. descends ?idx a n \<and> block_id n = block_id h)"
  proof -
    have "block_id h \<in> block_id ` {n. descends ?idx a n} \<longleftrightarrow>
          (\<exists>n. descends ?idx a n \<and> block_id n = block_id h)"
      by (simp add: image_iff) metis
    then show ?thesis by (simp add: subtree_ids_def)
  qed
  have 1: "remove_impl s a =
           Some (if block_id h = a \<or> (\<exists>n. descends ?idx a n \<and> block_id n = block_id h)
                 then Threw would_remove_head s
                 else Returned (s\<lparr>index := filter ?keep ?idx\<rparr>))"
    unfolding remove_impl_result[OF assms(2) ac di assms(6)] cond filter_subtree_ids[OF di] ..
  have 2: "\<not> descends (filter ?keep ?idx) a n" if "n \<in> set (filter ?keep ?idx)" for n
  proof
    assume "descends (filter ?keep ?idx) a n"
    then have "descends ?idx a n" by (rule descends_mono[rotated]) simp
    with that show False by simp
  qed
  have 3: "filter ?keep ?idx = ?idx" if "a \<notin> block_id ` set ?idx \<and> a \<noteq> block_id r"
  proof -
    have "?keep n" if n: "n \<in> set ?idx" for n
      using descends_ancestor_known[OF assms(4), of a n] n \<open>a \<notin> block_id ` set ?idx \<and> a \<noteq> block_id r\<close>
      by blast
    then show ?thesis by (simp add: filter_id_conv)
  qed
  from 1 2 3 show ?thesis by blast
qed

theorem remove_subtree_witness:
  "root ex_two = Some (blk 10 9 10 5 True) \<and> head ex_two = Some (blk 11 10 11 5 True) \<and>
   ids_unique (blk 10 9 10 5 True) (index ex_two) \<and>
   previous_resolves (blk 10 9 10 5 True) (index ex_two) \<and>
   block_num_linked (blk 10 9 10 5 True) (index ex_two) \<and>
   Suc (length (index ex_two)) < 2 ^ 32 \<and>
   remove_impl ex_two 12 = Some (Returned (ex_two\<lparr>index := [blk 11 10 11 5 True]\<rparr>)) \<and>
   remove_impl ex_two 11 = Some (Threw would_remove_head ex_two) \<and>
   remove_impl ex_two 77 = Some (Returned ex_two)"
proof -
  have h: "root ex_two = Some (blk 10 9 10 5 True)" "head ex_two = Some (blk 11 10 11 5 True)"
    "ids_unique (blk 10 9 10 5 True) (index ex_two)"
    "previous_resolves (blk 10 9 10 5 True) (index ex_two)"
    "block_num_linked (blk 10 9 10 5 True) (index ex_two)"
    "Suc (length (index ex_two)) < 2 ^ 32"
    by (simp_all add: ex_two_eq inv_defs blk_def)
  have e: "remove_impl ex_two 12 = Some (Returned (ex_two\<lparr>index := [blk 11 10 11 5 True]\<rparr>))"
    "remove_impl ex_two 11 = Some (Threw would_remove_head ex_two)"
    "remove_impl ex_two 77 = Some (Returned ex_two)"
    by (simp_all add: ex_two_eq remove_impl_def remove_queue_loop.simps by_prev_range_def
          blk_def index_erase_def)
  from remove_subtree[OF h, of 12] h e show ?thesis by simp
qed

text \<open>
  Claim C6, as stated, fails in its last part: an id that is absent from the index and
  differs from the head id need not succeed. The root id 10 is not in the index and is
  not the head id 11, and \<^verbatim>\<open>remove(10)\<close> throws, since the head descends from the root.
\<close>

theorem remove_absent_id_counterexample:
  "10 \<notin> block_id ` set (index ex_two) \<and>
   head ex_two = Some (blk 11 10 11 5 True) \<and> block_id (blk 11 10 11 5 True) \<noteq> 10 \<and>
   remove_impl ex_two 10 = Some (Threw would_remove_head ex_two)"
  by (simp add: ex_two_eq remove_impl_def remove_queue_loop.simps by_prev_range_def blk_def)

section \<open>Calls that throw\<close>

text \<open>
  \<^verbatim>\<open>add\<close>, \<^verbatim>\<open>mark_valid\<close> (with the head set) and \<^verbatim>\<open>remove\<close> throw before they change
  anything, and so does \<^verbatim>\<open>advance_root\<close> with each of its own exceptions. The one that
  it lets through from \<^verbatim>\<open>remove_impl\<close> is thrown after the new root has left the index.
\<close>

lemma ordered_insert_not_Nil: "ordered_insert n xs \<noteq> []"
  by (cases xs) auto

lemma add_impl_throw_keeps:
  assumes "add_impl validator s n ignore_duplicate validate = Threw e s'"
  shows "s' = s"
  using assms ordered_insert_not_Nil[of n "index s"]
  by (auto simp: add_impl_def index_insert_def
        split: option.splits sum.splits if_splits list.splits)

lemma mark_valid_throw_keeps:
  assumes "mark_valid_impl s h = Threw e s'" and "head s \<noteq> None"
  shows "s' = s"
proof (cases "index_find (index s) (block_id h)")
  case None
  with assms show ?thesis by (auto simp: mark_valid_impl_def split: if_splits)
next
  case (Some b)
  then have "index_modify_valid (block_id h) True (index s) \<noteq> []"
    by (simp add: index_modify_valid_def ordered_insert_not_Nil)
  with assms Some show ?thesis
    by (auto simp: mark_valid_impl_def Let_def split: if_splits list.splits option.splits)
qed

lemma remove_queue_loop_error:
  fixes idx :: "'a fork_multi_index_type"
  assumes "remove_queue_loop idx hid q k = Some res"
  shows "\<forall>e. res = Inl e \<longrightarrow> e = would_remove_head"
  by (rule remove_queue_loop.raw_induct[OF _ assms]) (auto split: if_splits)

lemma remove_impl_throw_keeps:
  assumes "remove_impl s i = Some (Threw e s')"
  shows "s' = s \<and> (e = would_remove_head \<or> e = null_dereference)"
proof (cases "head s")
  case None
  with assms show ?thesis by (simp add: remove_impl_def)
next
  case (Some h)
  with assms obtain res where res: "remove_queue_loop (index s) (block_id h) [i] 0 = Some res"
    by (cases "remove_queue_loop (index s) (block_id h) [i] 0") (simp_all add: remove_impl_def)
  from remove_queue_loop_error[OF res] assms Some res show ?thesis
    by (cases res) (auto simp: remove_impl_def)
qed

lemma remove_each_throw_error:
  assumes "remove_each s as = Some (Threw e s')"
  shows "e = would_remove_head \<or> e = null_dereference"
  using assms
proof (induction as arbitrary: s)
  case Nil
  then show ?case by simp
next
  case (Cons a as)
  from Cons.prems obtain o1 where o1: "remove_impl s a = Some o1"
    by (cases "remove_impl s a") auto
  show ?case
  proof (cases o1)
    case (Threw e1 s1)
    with Cons.prems o1 remove_impl_throw_keeps[of s a e1 s1] show ?thesis by simp
  next
    case (Returned s1)
    with Cons.prems o1 have "remove_each s1 as = Some (Threw e s')" by simp
    from Cons.IH[OF this] show ?thesis .
  qed
qed

lemma advance_root_throw_keeps:
  assumes "advance_root_impl s i = Some (Threw e s')"
    and "e \<noteq> would_remove_head" and "e \<noteq> null_dereference"
  shows "s' = s"
proof (rule ccontr)
  assume ne: "s' \<noteq> s"
  with assms(1) obtain bl where
    "remove_each (s\<lparr>index := index_erase i (index s)\<rparr>) bl = Some (Threw e s')"
    by (auto simp: advance_root_impl_def
          split: option.splits sum.splits if_splits outcome.splits)
  from remove_each_throw_error[OF this] assms(2,3) show False by simp
qed

text \<open>
  Claim C5 at a failing input. In the example tree every parent link resolves. The head 21
  does not descend from 11, and \<^verbatim>\<open>advance_root(11)\<close> throws out of \<^verbatim>\<open>remove_impl\<close> of the
  old root id, after the new root 11 has been erased from the index: the state that the
  exception leaves has the old root, and in its index block 12, whose parent 11 is neither
  the root nor an index node.
\<close>

theorem advance_root_throw_leaves_orphan:
  "root ex_fork = Some (blk 10 9 10 5 True) \<and>
   previous ` set (index ex_fork) \<subseteq> insert 10 (block_id ` set (index ex_fork)) \<and>
   advance_root_impl ex_fork 11 =
     Some (Threw would_remove_head
             (ex_fork\<lparr>index := [blk 21 10 11 6 True, blk 12 11 12 5 False]\<rparr>)) \<and>
   previous (blk 12 11 12 5 False) = 11 \<and>
   11 \<notin> insert 10 (block_id ` set [blk 21 10 11 6 True, blk 12 11 12 5 False])"
  by (simp add: ex_fork_eq advance_root_impl_def get_block_impl_def index_find_def
        advance_root_loop.simps remove_impl_def remove_queue_loop.simps by_prev_range_def
        blk_def index_erase_def)

section \<open>advance_root\<close>

lemma advance_root_loop_branch:
  assumes ac: "index_acyclic idx" and pr: "previous_resolves r idx"
    and "index_find idx h = Some b"
  shows "\<exists>br. is_branch idx h (b # br) \<and>
              advance_root_loop idx (block_id r) b acc =
                Some (Inr (acc @ map previous (b # br)))"
  using assms(3)
proof (induction "unat (block_num b)" arbitrary: h b acc rule: less_induct)
  case less
  from less.prems have b: "b \<in> set idx" by (auto dest: index_find_Some_mem)
  show ?case
  proof (cases "index_find idx (previous b)")
    case None
    then have "previous b \<notin> block_id ` set idx" by (simp add: index_find_None)
    with pr b have "previous b = block_id r" unfolding previous_resolves_def by blast
    with None have "advance_root_loop idx (block_id r) b acc = Some (Inr (acc @ [previous b]))"
      by (subst advance_root_loop.simps) simp
    with less.prems None show ?thesis by (intro exI[of _ "[]"]) simp
  next
    case (Some p)
    then have p: "p \<in> set idx" "block_id p = previous b" by (auto dest: index_find_Some_mem)
    with ac b have "block_num p < block_num b" unfolding index_acyclic_def by metis
    then have "unat (block_num p) < unat (block_num b)" by (simp add: word_less_nat_alt)
    from less.hyps[OF this Some, of "acc @ [previous b]"]
    obtain br where br: "is_branch idx (previous b) (p # br)"
      "advance_root_loop idx (block_id r) p (acc @ [previous b]) =
         Some (Inr ((acc @ [previous b]) @ map previous (p # br)))" by blast
    have "advance_root_loop idx (block_id r) b acc =
            advance_root_loop idx (block_id r) p (acc @ [previous b])"
      using Some by (subst advance_root_loop.simps) simp
    with br less.prems show ?thesis by (intro exI[of _ "p # br"]) simp
  qed
qed

lemma is_branch_descends:
  assumes "is_branch idx h br" and "p \<in> set br" and "br \<noteq> []"
  shows "descends idx (previous p) (hd br)"
  using assms
proof (induction br arbitrary: h)
  case Nil
  then show ?case by simp
next
  case (Cons b br)
  from Cons.prems(1) have b: "b \<in> set idx" by (auto dest: index_find_Some_mem)
  show ?case
  proof (cases "p = b")
    case True
    with b show ?thesis by (simp add: descends.child)
  next
    case False
    with Cons.prems have pin: "p \<in> set br" and brne: "br \<noteq> []" by auto
    from Cons.prems(1) have ib: "is_branch idx (previous b) br" by simp
    from Cons.IH[OF ib pin brne] have d: "descends idx (previous p) (hd br)" .
    from ib brne have "index_find idx (previous b) = Some (hd br)" by (cases br) auto
    then have "hd br \<in> set idx" "previous b = block_id (hd br)"
      by (auto dest: index_find_Some_mem)
    with b d show ?thesis by (simp add: descends.step)
  qed
qed

lemma all_descend_from_root:
  assumes ac: "index_acyclic idx" and pr: "previous_resolves r idx" and "n \<in> set idx"
  shows "descends idx (block_id r) n"
  using assms(3)
proof (induction "unat (block_num n)" arbitrary: n rule: less_induct)
  case less
  from pr less.prems have "previous n = block_id r \<or> previous n \<in> block_id ` set idx"
    unfolding previous_resolves_def by blast
  then show ?case
  proof
    assume "previous n = block_id r"
    with less.prems show ?thesis by (simp add: descends.child)
  next
    assume "previous n \<in> block_id ` set idx"
    then obtain m where m: "m \<in> set idx" "previous n = block_id m" by auto
    with ac less.prems have "block_num m < block_num n" unfolding index_acyclic_def by metis
    then have "unat (block_num m) < unat (block_num n)" by (simp add: word_less_nat_alt)
    from less.hyps[OF this m(1)] m less.prems show ?thesis by (simp add: descends.step)
  qed
qed

lemma descends_via_erased:
  assumes "descends idx a n"
  shows "block_id n = i \<or> descends idx i n \<or> descends (index_erase i idx) a n"
  using assms
proof (induction rule: descends.induct)
  case (child n)
  show ?case
  proof (cases "block_id n = i")
    case False
    with child have "n \<in> set (index_erase i idx)" by (simp add: index_erase_def)
    with child show ?thesis by (simp add: descends.child)
  qed simp
next
  case (step n m)
  show ?case
  proof (cases "block_id n = i")
    case False
    with step have n: "n \<in> set (index_erase i idx)" by (simp add: index_erase_def)
    from step.IH show ?thesis
    proof (elim disjE)
      assume "block_id m = i"
      with step have "descends idx i n" by (simp add: descends.child)
      then show ?thesis by simp
    next
      assume "descends idx i m"
      with step have "descends idx i n" by (simp add: descends.step)
      then show ?thesis by simp
    next
      assume d: "descends (index_erase i idx) a m"
      from descends_in_index[OF d] n step(3) d
      have "descends (index_erase i idx) a n" by (simp add: descends.step)
      then show ?thesis by simp
    qed
  qed simp
qed

lemma descends_erased_below:
  assumes di: "distinct (map block_id idx)"
    and "descends (index_erase i idx) a n" and "descends idx i n"
  shows "a = i \<or> (\<exists>m. m \<in> set idx \<and> block_id m = a \<and> descends idx i m)"
  using assms(2,3)
proof (induction rule: descends.induct)
  case (child n)
  from child(3) show ?case
  proof (cases rule: descends.cases)
    case child
    with \<open>previous n = a\<close> show ?thesis by simp
  next
    case (step m)
    with \<open>previous n = a\<close> show ?thesis by auto
  qed
next
  case (step n m')
  from step(1,2) have idx: "n \<in> set idx" "m' \<in> set idx" "block_id m' \<noteq> i"
    by (simp_all add: index_erase_def)
  from step(6) show ?case
  proof (cases rule: descends.cases)
    case child
    with step(3) idx(3) show ?thesis by simp
  next
    case (step m)
    with \<open>previous n = block_id m'\<close> have "block_id m = block_id m'" by simp
    from distinct_ids_eq[OF di step(2) idx(2) this] step(4) have "descends idx i m'" by simp
    then show ?thesis by (rule step.IH)
  qed
qed


lemma descends_after_cut:
  assumes "descends X b n" and "block_id n \<notin> subtree_ids X a"
  shows "descends (filter (\<lambda>n. block_id n \<notin> subtree_ids X a) X) b n"
  using assms
proof (induction rule: descends.induct)
  case (child n)
  then show ?case by (simp add: descends.child)
next
  case (step n m)
  have "block_id m \<notin> subtree_ids X a"
  proof
    assume "block_id m \<in> subtree_ids X a"
    from subtree_ids_children[OF this] step(1,3)
    have "block_id n \<in> subtree_ids X a" by (auto simp: by_prev_range_def)
    with step.prems show False by simp
  qed
  from step.IH[OF this] have d: "descends (filter (\<lambda>n. block_id n \<notin> subtree_ids X a) X) b m" .
  from step(1,3) step.prems descends_in_index[OF d] d show ?case
    by (simp add: descends.step)
qed

lemma subtree_ids_after_cut:
  assumes "block_id n \<notin> subtree_ids X a"
  shows "block_id n \<in> subtree_ids (filter (\<lambda>n. block_id n \<notin> subtree_ids X a) X) b \<longleftrightarrow>
         block_id n \<in> subtree_ids X b"
proof
  let ?X1 = "filter (\<lambda>n. block_id n \<notin> subtree_ids X a) X"
  assume "block_id n \<in> subtree_ids ?X1 b"
  then have "block_id n = b \<or> (\<exists>m. descends ?X1 b m \<and> block_id m = block_id n)"
    by (auto simp: subtree_ids_def)
  then show "block_id n \<in> subtree_ids X b"
  proof
    assume "\<exists>m. descends ?X1 b m \<and> block_id m = block_id n"
    then obtain m where m: "descends ?X1 b m" "block_id m = block_id n" by blast
    have "descends X b m" by (rule descends_mono[OF _ m(1)]) simp
    with m(2) show ?thesis unfolding subtree_ids_def by (metis (mono_tags, lifting) image_eqI insertCI mem_Collect_eq)
  qed (simp add: subtree_ids_def)
next
  let ?X1 = "filter (\<lambda>n. block_id n \<notin> subtree_ids X a) X"
  assume "block_id n \<in> subtree_ids X b"
  then have "block_id n = b \<or> (\<exists>m. descends X b m \<and> block_id m = block_id n)"
    by (auto simp: subtree_ids_def)
  then show "block_id n \<in> subtree_ids ?X1 b"
  proof
    assume "\<exists>m. descends X b m \<and> block_id m = block_id n"
    then obtain m where m: "descends X b m" "block_id m = block_id n" by blast
    with assms have "block_id m \<notin> subtree_ids X a" by simp
    from descends_after_cut[OF m(1) this] m(2) show ?thesis
      unfolding subtree_ids_def by (metis (mono_tags, lifting) image_eqI insertCI mem_Collect_eq)
  qed (simp add: subtree_ids_def)
qed

lemma prune_each_filter:
  "prune_each X as = filter (\<lambda>n. \<forall>a\<in>set as. block_id n \<notin> subtree_ids X a) X"
proof (induction as arbitrary: X)
  case Nil
  then show ?case by simp
next
  case (Cons a as)
  let ?X1 = "filter (\<lambda>n. block_id n \<notin> subtree_ids X a) X"
  have "prune_each X (a # as) =
          filter (\<lambda>n. \<forall>b\<in>set as. block_id n \<notin> subtree_ids ?X1 b) ?X1"
    by (simp add: Cons.IH)
  also have "\<dots> = filter (\<lambda>n. block_id n \<notin> subtree_ids X a \<and>
                              (\<forall>b\<in>set as. block_id n \<notin> subtree_ids ?X1 b)) X"
    by (simp add: conj_commute)
  also have "\<dots> = filter (\<lambda>n. block_id n \<notin> subtree_ids X a \<and>
                              (\<forall>b\<in>set as. block_id n \<notin> subtree_ids X b)) X"
    by (rule filter_cong[OF refl]) (auto simp: subtree_ids_after_cut)
  finally show ?case by simp
qed

lemma index_acyclic_filter: "index_acyclic X \<Longrightarrow> index_acyclic (filter P X)"
  by (simp add: index_acyclic_def)

lemma remove_each_result:
  assumes "head s = Some h" and "index_acyclic (index s)"
    and "distinct (map block_id (index s))" and "Suc (length (index s)) < 2 ^ 32"
  shows "\<exists>out. remove_each s as = Some out \<and>
           (\<forall>s'. out = Returned s' \<longrightarrow> s' = s\<lparr>index := prune_each (index s) as\<rparr>)"
  using assms
proof (induction as arbitrary: s)
  case Nil
  then show ?case by simp
next
  case (Cons a as)
  note r = remove_impl_result[OF Cons.prems, of a]
  show ?case
  proof (cases "block_id h \<in> subtree_ids (index s) a")
    case True
    with r show ?thesis by simp
  next
    case False
    let ?s1 = "s\<lparr>index := filter (\<lambda>n. block_id n \<notin> subtree_ids (index s) a) (index s)\<rparr>"
    from False r have r1: "remove_impl s a = Some (Returned ?s1)" by simp
    have "head ?s1 = Some h" using Cons.prems(1) by simp
    moreover have "index_acyclic (index ?s1)"
      using Cons.prems(2) by (simp add: index_acyclic_filter)
    moreover have "distinct (map block_id (index ?s1))"
      using Cons.prems(3) by (simp add: distinct_map_filter)
    moreover have "Suc (length (index ?s1)) < 2 ^ 32"
    proof -
      have "length (index ?s1) \<le> length (index s)" by simp
      with Cons.prems(4) show ?thesis by linarith
    qed
    ultimately obtain out where out: "remove_each ?s1 as = Some out"
      "\<forall>s'. out = Returned s' \<longrightarrow> s' = ?s1\<lparr>index := prune_each (index ?s1) as\<rparr>"
      using Cons.IH[of ?s1] by blast
    with r1 show ?thesis by simp
  qed
qed


lemma descends_self_False:
  assumes "index_acyclic idx" and "b \<in> set idx" and "descends idx (block_id b) b"
  shows False
  using descends_block_num[OF assms] by simp

lemma descends_both_False:
  assumes "index_acyclic idx" and "m \<in> set idx" and "b \<in> set idx"
    and "descends idx (block_id m) b" and "descends idx (block_id b) m"
  shows False
  using descends_block_num[OF assms(1,2,4)] descends_block_num[OF assms(1,3,5)] by simp

lemma prune_ancestors:
  assumes di: "distinct (map block_id idx)" and ac: "index_acyclic idx"
    and pr: "previous_resolves r idx"
    and br: "is_branch idx i (b0 # br)"
  shows "prune_each (index_erase i idx) (map previous (b0 # br)) =
         filter (descends idx i) idx"
proof -
  let ?idx0 = "index_erase i idx"
  let ?blocks = "map previous (b0 # br)"
  from br have b0: "b0 \<in> set idx" "block_id b0 = i" by (auto dest: index_find_Some_mem)
  have di0: "distinct (map block_id ?idx0)"
    using di by (simp add: index_erase_def distinct_map_filter)
  have anc: "descends idx a b0" if "a \<in> set ?blocks" for a
  proof -
    from that obtain p where "p \<in> set (b0 # br)" "a = previous p" by auto
    with is_branch_descends[OF br, of p] show ?thesis by simp
  qed
  have root_in: "block_id r \<in> set ?blocks"
  proof -
    have "last (b0 # br) \<in> set idx" using is_branch_subset[OF br] last_in_set[of "b0 # br"] by blast
    with pr have "previous (last (b0 # br)) = block_id r \<or>
        previous (last (b0 # br)) \<in> block_id ` set idx"
      unfolding previous_resolves_def by blast
    moreover from is_branch_last[OF br]
    have "previous (last (b0 # br)) \<notin> block_id ` set idx" by (simp add: index_find_None)
    ultimately have "previous (last (b0 # br)) = block_id r" by blast
    moreover have "previous (last (b0 # br)) \<in> set ?blocks" using last_in_set[of "b0 # br"] by (metis image_eqI list.set_map list.simps(3))
    ultimately show ?thesis by simp
  qed
  have keep: "(block_id n \<noteq> i \<and> (\<forall>a\<in>set ?blocks. block_id n \<notin> subtree_ids ?idx0 a)) \<longleftrightarrow>
              descends idx i n" if n: "n \<in> set idx" for n
  proof
    assume D: "descends idx i n"
    have ni: "block_id n \<noteq> i"
    proof
      assume "block_id n = i"
      with distinct_ids_eq[OF di n b0(1)] b0(2) have "n = b0" by simp
      with D b0(2) descends_self_False[OF ac b0(1)] show False by simp
    qed
    then have n0: "n \<in> set ?idx0" using n by (simp add: index_erase_def)
    have "block_id n \<notin> subtree_ids ?idx0 a" if a: "a \<in> set ?blocks" for a
    proof -
      have "block_id n \<noteq> a"
      proof
        assume "block_id n = a"
        with anc[OF a] have "descends idx (block_id n) b0" by simp
        with descends_both_False[OF ac n b0(1)] D b0(2) show False by simp
      qed
      moreover have "\<not> descends ?idx0 a n"
      proof
        assume "descends ?idx0 a n"
        from descends_erased_below[OF di this D]
        show False
        proof
          assume "a = i"
          with anc[OF a] b0(2) descends_self_False[OF ac b0(1)] show False by simp
        next
          assume "\<exists>m. m \<in> set idx \<and> block_id m = a \<and> descends idx i m"
          then obtain m where m: "m \<in> set idx" "block_id m = a" "descends idx i m" by blast
          with anc[OF a] have "descends idx (block_id m) b0" by simp
          with descends_both_False[OF ac m(1) b0(1)] m(3) b0(2) show False by simp
        qed
      qed
      ultimately show ?thesis by (simp add: subtree_ids_member[OF di0 n0])
    qed
    with ni show "block_id n \<noteq> i \<and> (\<forall>a\<in>set ?blocks. block_id n \<notin> subtree_ids ?idx0 a)"
      by blast
  next
    assume A: "block_id n \<noteq> i \<and> (\<forall>a\<in>set ?blocks. block_id n \<notin> subtree_ids ?idx0 a)"
    then have n0: "n \<in> set ?idx0" using n by (simp add: index_erase_def)
    from A root_in have "block_id n \<notin> subtree_ids ?idx0 (block_id r)" by blast
    then have "\<not> descends ?idx0 (block_id r) n"
      by (simp add: subtree_ids_member[OF di0 n0])
    with descends_via_erased[OF all_descend_from_root[OF ac pr n], of i] A
    show "descends idx i n" by blast
  qed
  have "prune_each ?idx0 ?blocks =
          filter (\<lambda>n. \<forall>a\<in>set ?blocks. block_id n \<notin> subtree_ids ?idx0 a) ?idx0"
    by (rule prune_each_filter)
  also have "\<dots> = filter (\<lambda>n. block_id n \<noteq> i \<and>
                     (\<forall>a\<in>set ?blocks. block_id n \<notin> subtree_ids ?idx0 a)) idx"
    by (simp add: index_erase_def conj_commute)
  also have "\<dots> = filter (descends idx i) idx"
    by (rule filter_cong[OF refl]) (rule keep)
  finally show ?thesis .
qed

lemma descends_in_kept:
  assumes "descends idx i n"
  shows "descends (filter (descends idx i) idx) i n"
  using assms
proof (induction rule: descends.induct)
  case (child n)
  then show ?case by (simp add: descends.child)
next
  case (step n m)
  from step(1,2,3,4) have "descends idx i n" by (simp add: descends.step)
  with step(1,3) step.IH descends_in_index[OF step.IH] show ?case
    by (simp add: descends.step)
qed


lemma advance_root_impl_tree:
  assumes r: "root s = Some r" and h: "head s = Some h"
    and iu: "ids_unique r (index s)" and pr: "previous_resolves r (index s)"
    and bl: "block_num_linked r (index s)" and bound: "Suc (length (index s)) < 2 ^ 32"
  shows "(\<exists>out. advance_root_impl s i = Some out) \<and>
         (\<forall>s'. advance_root_impl s i = Some (Returned s') \<longrightarrow>
            (\<exists>b. get_block_impl s i = Some b \<and> valid b \<and>
                 s' = s\<lparr>index := filter (descends (index s) i) (index s), root := Some b\<rparr>))"
proof (cases "get_block_impl s i")
  case None
  with r show ?thesis by (simp add: advance_root_impl_def)
next
  case (Some b0)
  let ?idx = "index s"
  have di: "distinct (map block_id ?idx)" using iu by (simp add: ids_unique_def)
  have ac: "index_acyclic ?idx" by (rule block_num_linked_acyclic[OF bl])
  show ?thesis
  proof (cases "valid b0")
    case False
    with r Some show ?thesis by (simp add: advance_root_impl_def)
  next
    case True
    from Some have f: "index_find ?idx i = Some b0" by (simp add: get_block_impl_def)
    from advance_root_loop_branch[OF ac pr f, of "[]"]
    obtain br where br: "is_branch ?idx i (b0 # br)"
      "advance_root_loop ?idx (block_id r) b0 [] = Some (Inr (map previous (b0 # br)))"
      by auto
    let ?s0 = "s\<lparr>index := index_erase i ?idx\<rparr>"
    have "head ?s0 = Some h" using h by simp
    moreover have "index_acyclic (index ?s0)"
      using ac by (simp add: index_erase_def index_acyclic_filter)
    moreover have "distinct (map block_id (index ?s0))"
      using di by (simp add: index_erase_def distinct_map_filter)
    moreover have "Suc (length (index ?s0)) < 2 ^ 32"
    proof -
      have "length (index ?s0) \<le> length ?idx" by (simp add: index_erase_def)
      with bound show ?thesis by linarith
    qed
    ultimately obtain out where out: "remove_each ?s0 (map previous (b0 # br)) = Some out"
      "\<forall>s'. out = Returned s' \<longrightarrow>
         s' = ?s0\<lparr>index := prune_each (index ?s0) (map previous (b0 # br))\<rparr>"
      using remove_each_result[of ?s0 h "map previous (b0 # br)"] by blast
    have pe: "prune_each (index ?s0) (map previous (b0 # br)) = filter (descends ?idx i) ?idx"
      using prune_ancestors[OF di ac pr br(1)] by simp
    show ?thesis
    proof (cases out)
      case (Threw e s')
      with r Some True br(2) out(1) show ?thesis by (simp add: advance_root_impl_def)
    next
      case (Returned s')
      with out(2) pe have "s' = ?s0\<lparr>index := filter (descends ?idx i) ?idx\<rparr>" by simp
      with Returned r Some True br(2) out(1) show ?thesis by (simp add: advance_root_impl_def)
    qed
  qed
qed

text \<open>
  What \<^verbatim>\<open>advance_root\<close> does on a tree of the data model. \<^verbatim>\<open>advance_root(i)\<close> throws \<^verbatim>\<open>fork_database_exception\<close> when the root is not set
  ("root not yet set"), when the index has no node \<open>i\<close> ("cannot advance root to a block
  that does not exist in the fork database") and when the node is not valid ("... that has
  not yet been validated"); the state is as before. In a tree that satisfies the
  invariants of the data model, with the head set and fewer than \<open>2\<^sup>3\<^sup>2 - 1\<close> nodes, it
  returns or throws, and when it returns the root is the index node \<open>i\<close> as it was, the head
  is as before, \<open>i\<close> is no longer an id of the index, and the index holds exactly the nodes
  that descended from \<open>i\<close>, each of which still descends from \<open>i\<close> inside the new index.
\<close>

theorem advance_root_prunes:
  "(root s = None \<longrightarrow> advance_root_impl s i = Some (Threw root_not_set s)) \<and>
   (root s \<noteq> None \<and> get_block_impl s i = None \<longrightarrow>
      advance_root_impl s i = Some (Threw advance_root_missing s)) \<and>
   (root s \<noteq> None \<and> (\<exists>b. get_block_impl s i = Some b \<and> \<not> valid b) \<longrightarrow>
      advance_root_impl s i = Some (Threw advance_root_not_validated s)) \<and>
   (root s = Some r \<and> head s = Some h \<and> ids_unique r (index s) \<and>
    previous_resolves r (index s) \<and> block_num_linked r (index s) \<and>
    Suc (length (index s)) < 2 ^ 32 \<longrightarrow>
      (\<exists>out. advance_root_impl s i = Some out) \<and>
      (\<forall>s'. advance_root_impl s i = Some (Returned s') \<longrightarrow>
         (\<exists>b. get_block_impl s i = Some b \<and> valid b \<and> root s' = Some b \<and>
              head s' = head s \<and>
              index s' = filter (descends (index s) i) (index s) \<and>
              i \<notin> block_id ` set (index s') \<and>
              (\<forall>n\<in>set (index s'). descends (index s') i n))))"
proof (intro conjI impI)
  show "advance_root_impl s i = Some (Threw root_not_set s)" if "root s = None"
    using that by (simp add: advance_root_impl_def)
  show "advance_root_impl s i = Some (Threw advance_root_missing s)"
    if "root s \<noteq> None \<and> get_block_impl s i = None"
    using that by (auto simp: advance_root_impl_def)
  show "advance_root_impl s i = Some (Threw advance_root_not_validated s)"
    if "root s \<noteq> None \<and> (\<exists>b. get_block_impl s i = Some b \<and> \<not> valid b)"
    using that by (auto simp: advance_root_impl_def)
next
  assume A: "root s = Some r \<and> head s = Some h \<and> ids_unique r (index s) \<and>
    previous_resolves r (index s) \<and> block_num_linked r (index s) \<and>
    Suc (length (index s)) < 2 ^ 32"
  then have t: "(\<exists>out. advance_root_impl s i = Some out) \<and>
         (\<forall>s'. advance_root_impl s i = Some (Returned s') \<longrightarrow>
            (\<exists>b. get_block_impl s i = Some b \<and> valid b \<and>
                 s' = s\<lparr>index := filter (descends (index s) i) (index s), root := Some b\<rparr>))"
    using advance_root_impl_tree[of s r h i] by blast
  from t show "\<exists>out. advance_root_impl s i = Some out" by blast
  show "\<forall>s'. advance_root_impl s i = Some (Returned s') \<longrightarrow>
         (\<exists>b. get_block_impl s i = Some b \<and> valid b \<and> root s' = Some b \<and>
              head s' = head s \<and>
              index s' = filter (descends (index s) i) (index s) \<and>
              i \<notin> block_id ` set (index s') \<and>
              (\<forall>n\<in>set (index s'). descends (index s') i n))"
  proof (intro allI impI)
    fix s' assume "advance_root_impl s i = Some (Returned s')"
    with t obtain b where b: "get_block_impl s i = Some b" "valid b"
      "s' = s\<lparr>index := filter (descends (index s) i) (index s), root := Some b\<rparr>" by blast
    let ?idx = "index s"
    from A have di: "distinct (map block_id ?idx)" by (simp add: ids_unique_def)
    from A have ac: "index_acyclic ?idx" using block_num_linked_acyclic by blast
    from b(1) have bi: "b \<in> set ?idx" "block_id b = i"
      by (auto simp: get_block_impl_def dest: index_find_Some_mem)
    have idx': "index s' = filter (descends ?idx i) ?idx" using b(3) by simp
    have notin: "i \<notin> block_id ` set (index s')"
    proof
      assume "i \<in> block_id ` set (index s')"
      then obtain n where n: "n \<in> set ?idx" "descends ?idx i n" "block_id n = i"
        unfolding idx' by auto
      with distinct_ids_eq[OF di n(1) bi(1)] bi(2) have "n = b" by simp
      with n(2) bi descends_self_False[OF ac bi(1)] show False by simp
    qed
    have desc: "\<forall>n\<in>set (index s'). descends (index s') i n"
      unfolding idx' using descends_in_kept by auto
    from b idx' notin desc
    show "\<exists>b. get_block_impl s i = Some b \<and> valid b \<and> root s' = Some b \<and>
              head s' = head s \<and>
              index s' = filter (descends (index s) i) (index s) \<and>
              i \<notin> block_id ` set (index s') \<and>
              (\<forall>n\<in>set (index s'). descends (index s') i n)"
      by (intro exI[of _ b]) simp
  qed
qed

theorem advance_root_prunes_witness:
  "root ex_fork_13 = Some (blk 10 9 10 5 True) \<and>
   head ex_fork_13 = Some (blk 13 12 13 5 True) \<and>
   ids_unique (blk 10 9 10 5 True) (index ex_fork_13) \<and>
   previous_resolves (blk 10 9 10 5 True) (index ex_fork_13) \<and>
   block_num_linked (blk 10 9 10 5 True) (index ex_fork_13) \<and>
   Suc (length (index ex_fork_13)) < 2 ^ 32 \<and>
   advance_root_impl ex_fork_13 11 =
     Some (Returned (ex_fork_13\<lparr>index := [blk 13 12 13 5 True, blk 12 11 12 5 False],
                                 root := Some (blk 11 10 11 5 True)\<rparr>)) \<and>
   descends [blk 13 12 13 5 True, blk 12 11 12 5 False] 11 (blk 13 12 13 5 True) \<and>
   descends [blk 13 12 13 5 True, blk 12 11 12 5 False] 11 (blk 12 11 12 5 False) \<and>
   advance_root_impl (fork_database_new 7 :: nat fork_database_impl) 11 =
     Some (Threw root_not_set (fork_database_new 7)) \<and>
   advance_root_impl ex_fork_13 77 = Some (Threw advance_root_missing ex_fork_13) \<and>
   advance_root_impl ex_fork_13 12 = Some (Threw advance_root_not_validated ex_fork_13)"
proof -
  have h: "root ex_fork_13 = Some (blk 10 9 10 5 True)"
    "head ex_fork_13 = Some (blk 13 12 13 5 True)"
    "ids_unique (blk 10 9 10 5 True) (index ex_fork_13)"
    "previous_resolves (blk 10 9 10 5 True) (index ex_fork_13)"
    "block_num_linked (blk 10 9 10 5 True) (index ex_fork_13)"
    "Suc (length (index ex_fork_13)) < 2 ^ 32"
    by (simp_all add: ex_fork_13_eq inv_defs blk_def)
  have e: "advance_root_impl ex_fork_13 11 =
     Some (Returned (ex_fork_13\<lparr>index := [blk 13 12 13 5 True, blk 12 11 12 5 False],
                                 root := Some (blk 11 10 11 5 True)\<rparr>))"
    by (simp add: ex_fork_13_eq advance_root_impl_def get_block_impl_def index_find_def
        advance_root_loop.simps remove_impl_def remove_queue_loop.simps by_prev_range_def
        blk_def index_erase_def)
  let ?s' = "ex_fork_13\<lparr>index := [blk 13 12 13 5 True, blk 12 11 12 5 False],
                                 root := Some (blk 11 10 11 5 True)\<rparr>"
  from advance_root_prunes[of ex_fork_13 11 "blk 10 9 10 5 True" "blk 13 12 13 5 True"] h
  have "\<forall>s'. advance_root_impl ex_fork_13 11 = Some (Returned s') \<longrightarrow>
          (\<forall>n\<in>set (index s'). descends (index s') 11 n)"
    by blast
  with e have "\<forall>n\<in>set (index ?s'). descends (index ?s') 11 n" by blast
  then have d: "\<forall>n\<in>set [blk 13 12 13 5 True, blk 12 11 12 5 False].
             descends [blk 13 12 13 5 True, blk 12 11 12 5 False] 11 n"
    by simp
  have g: "root (fork_database_new 7 :: nat fork_database_impl) = None"
    "get_block_impl ex_fork_13 77 = None"
    "get_block_impl ex_fork_13 12 = Some (blk 12 11 12 5 False)" "\<not> valid (blk 12 11 12 5 False)"
    by (simp_all add: ex_fork_13_eq fork_database_new_def get_block_impl_def index_find_def blk_def)
  from advance_root_prunes[of "fork_database_new 7 :: nat fork_database_impl" 11] g(1)
  have 1: "advance_root_impl (fork_database_new 7 :: nat fork_database_impl) 11 =
     Some (Threw root_not_set (fork_database_new 7))" by simp
  from advance_root_prunes[of ex_fork_13 77] g(2) h(1)
  have 2: "advance_root_impl ex_fork_13 77 = Some (Threw advance_root_missing ex_fork_13)"
    by simp
  from advance_root_prunes[of ex_fork_13 12] g(3,4) h(1)
  have 3: "advance_root_impl ex_fork_13 12 = Some (Threw advance_root_not_validated ex_fork_13)"
    by simp
  from h e d 1 2 3 show ?thesis by simp
qed

lemma descends_orphan:
  assumes "descends idx a n"
  shows "idx = [blk 12 11 12 5 False] \<longrightarrow> a \<noteq> 21"
  using assms by (induction rule: descends.induct) (auto simp: blk_def)

text \<open>
  Claim C7 at a failing input. In the tree with the two valid children the head 21 is not
  above 11, and \<^verbatim>\<open>advance_root(11)\<close> throws after it has erased 11. The call
  \<^verbatim>\<open>advance_root(21)\<close> that follows returns: the root is 21, and block 12 is still in the
  index, which is not a descendant of the new root.
\<close>

theorem advance_root_keeps_orphan:
  "advance_root_impl ex_fork 11 = Some (Threw would_remove_head ex_orphan) \<and>
   advance_root_impl ex_orphan 21 =
     Some (Returned \<lparr>index = [blk 12 11 12 5 False], root = Some (blk 21 10 11 6 True),
                     head = Some (blk 21 10 11 6 True), magic_number = 7\<rparr>) \<and>
   \<not> descends [blk 12 11 12 5 False] 21 (blk 12 11 12 5 False)"
proof -
  have a: "advance_root_impl ex_fork 11 = Some (Threw would_remove_head ex_orphan)"
    by (simp add: ex_orphan_eq)
       (simp add: ex_fork_eq advance_root_impl_def get_block_impl_def index_find_def
          advance_root_loop.simps remove_impl_def remove_queue_loop.simps by_prev_range_def
          blk_def index_erase_def)
  have b: "advance_root_impl ex_orphan 21 =
     Some (Returned \<lparr>index = [blk 12 11 12 5 False], root = Some (blk 21 10 11 6 True),
                     head = Some (blk 21 10 11 6 True), magic_number = 7\<rparr>)"
    by (simp add: ex_orphan_eq advance_root_impl_def get_block_impl_def index_find_def
          advance_root_loop.simps remove_impl_def remove_queue_loop.simps by_prev_range_def
          blk_def index_erase_def)
  have c: "\<not> descends [blk 12 11 12 5 False] 21 (blk 12 11 12 5 False)"
    using descends_orphan by blast
  from a b c show ?thesis by simp
qed

section \<open>fetch_branch_from\<close>

lemma root_path_exists:
  assumes ac: "index_acyclic idx" and pr: "previous_resolves r idx" and "n \<in> set idx"
  shows "\<exists>p. is_root_path r idx (n # p)"
  using assms(3)
proof (induction "unat (block_num n)" arbitrary: n rule: less_induct)
  case less
  show ?case
  proof (cases "previous n = block_id r")
    case True
    with less.prems show ?thesis by (intro exI[of _ "[r]"]) simp
  next
    case False
    with pr less.prems have "previous n \<in> block_id ` set idx"
      unfolding previous_resolves_def by blast
    then obtain m where m: "index_find idx (previous n) = Some m"
      using index_find_None[of idx "previous n"] by (cases "index_find idx (previous n)") auto
    then have mi: "m \<in> set idx" "block_id m = previous n" by (auto dest: index_find_Some_mem)
    with ac less.prems have "block_num m < block_num n" unfolding index_acyclic_def by metis
    then have "unat (block_num m) < unat (block_num n)" by (simp add: word_less_nat_alt)
    from less.hyps[OF this mi(1)] obtain p where "is_root_path r idx (m # p)" by blast
    with False m less.prems show ?thesis by (intro exI[of _ "m # p"]) simp
  qed
qed

lemma root_path_unique:
  "is_root_path r idx (x # p) \<Longrightarrow> is_root_path r idx (x # q) \<Longrightarrow> r \<notin> set idx \<Longrightarrow> p = q"
proof (induction p arbitrary: x q)
  case Nil
  then show ?case by (cases q) auto
next
  case (Cons y p)
  then show ?case by (cases q) (auto split: if_splits)
qed

lemma root_path_suffix:
  "is_root_path r idx (p @ q) \<Longrightarrow> q \<noteq> [] \<Longrightarrow> is_root_path r idx q"
proof (induction p)
  case Nil
  then show ?case by simp
next
  case (Cons x p)
  then show ?case by (cases "p @ q") auto
qed

lemma root_path_last: "is_root_path r idx p \<Longrightarrow> last p = r"
  by (induction p rule: induct_list012) auto

lemma root_path_step_num:
  assumes "block_num_linked r idx" and "is_root_path r idx (x # y # ys)"
  shows "unat (block_num x) = Suc (unat (block_num y))"
proof -
  from assms(2) have x: "x \<in> set idx"
    and y: "(if previous x = block_id r then Some r else index_find idx (previous x)) = Some y"
    by simp_all
  from y have "y \<in> set (r # idx) \<and> previous x = block_id y"
    by (auto split: if_splits dest: index_find_Some_mem)
  with assms(1) x show ?thesis unfolding block_num_linked_def by blast
qed

lemma root_path_root_lowest:
  assumes "block_num_linked r idx" and "is_root_path r idx p" and "x \<in> set p"
  shows "block_num r \<le> block_num x"
  using assms(2,3)
proof (induction p arbitrary: x rule: induct_list012)
  case (3 x' y ys)
  from root_path_step_num[OF assms(1) "3.prems"(1)]
  have "block_num y \<le> block_num x'" by (simp add: word_le_nat_alt)
  moreover from 3 have "block_num r \<le> block_num y" by simp
  ultimately have "block_num r \<le> block_num x'" by simp
  with 3 show ?case by auto
qed auto

lemma root_path_align:
  assumes "is_root_path r idx (x # xs)" and "\<not> other < block_num r"
  shows "fetch_branch_from_align r idx other x acc =
           Some (Inr (hd (dropWhile (\<lambda>p. other < block_num p) (x # xs)),
                      acc @ takeWhile (\<lambda>p. other < block_num p) (x # xs)))"
  using assms(1)
proof (induction xs arbitrary: x acc)
  case Nil
  with assms(2) show ?case by (subst fetch_branch_from_align.simps) simp
next
  case (Cons y ys)
  show ?case
  proof (cases "other < block_num x")
    case True
    from Cons.prems have "is_root_path r idx (y # ys)" by simp
    from Cons.IH[OF this, of "acc @ [x]"] True Cons.prems show ?thesis
      by (subst fetch_branch_from_align.simps) simp
  next
    case False
    then show ?thesis by (subst fetch_branch_from_align.simps) simp
  qed
qed

lemma root_path_dropWhile:
  assumes "is_root_path r idx p" and "\<not> other < block_num r"
  shows "is_root_path r idx (dropWhile (\<lambda>p. other < block_num p) p)"
proof -
  let ?P = "\<lambda>p. other < block_num p"
  from assms(1) have "p \<noteq> []" by auto
  with root_path_last[OF assms(1)] have "r \<in> set p" using last_in_set by metis
  with assms(2) have "dropWhile ?P p \<noteq> []" by (auto simp: dropWhile_eq_Nil_conv)
  moreover have "is_root_path r idx (takeWhile ?P p @ dropWhile ?P p)" using assms(1) by simp
  ultimately show ?thesis by (rule root_path_suffix[rotated])
qed

lemma root_path_landing:
  assumes bl: "block_num_linked r idx" and "is_root_path r idx p"
    and "block_num r \<le> t" and "t \<le> block_num (hd p)"
  shows "block_num (hd (dropWhile (\<lambda>x. t < block_num x) p)) = t"
  using assms(2,4)
proof (induction p rule: induct_list012)
  case (2 x)
  with assms(3) show ?case by auto
next
  case (3 x y ys)
  show ?case
  proof (cases "t < block_num x")
    case True
    from root_path_step_num[OF bl "3.prems"(1)] True
    have "t \<le> block_num y" by (simp add: word_le_nat_alt word_less_nat_alt)
    with 3 True show ?thesis by simp
  next
    case False
    with "3.prems"(2) show ?thesis by simp
  qed
qed simp



lemma root_path_length:
  assumes "block_num_linked r idx" and "is_root_path r idx p"
  shows "Suc (unat (block_num (hd p))) = unat (block_num r) + length p"
  using assms(2)
proof (induction p rule: induct_list012)
  case (3 x y ys)
  from root_path_step_num[OF assms(1) "3.prems"] 3 show ?case by simp
qed auto

lemma root_path_head_known:
  assumes "is_root_path r idx p"
  shows "hd p \<in> set (r # idx)"
  using assms by (induction p rule: induct_list012) auto

lemma root_path_common:
  assumes ru: "r \<notin> set idx"
    and "is_root_path r idx (x # xs)" and "is_root_path r idx (y # ys)"
    and "length xs = length ys" and "block_id x \<noteq> block_id y"
  shows "\<exists>k. fetch_branch_from_common idx x y a1 a2 =
               Some (Inr (a1 @ take (Suc k) (x # xs), a2 @ take (Suc k) (y # ys))) \<and>
             drop (Suc k) (x # xs) = drop (Suc k) (y # ys) \<and> Suc k \<le> length xs \<and>
             (x # xs) ! k \<noteq> (y # ys) ! k"
  using assms(4,2,3,5)
proof (induction xs ys arbitrary: x y a1 a2 rule: list_induct2)
  case Nil
  then show ?case by simp
next
  case (Cons x' xs y' ys)
  from Cons.prems have x: "x \<in> set idx"
    and rx: "(if previous x = block_id r then Some r else index_find idx (previous x)) = Some x'"
    and px: "is_root_path r idx (x' # xs)"
    and y: "y \<in> set idx"
    and ry: "(if previous y = block_id r then Some r else index_find idx (previous y)) = Some y'"
    and py: "is_root_path r idx (y' # ys)" by simp_all
  show ?case
  proof (cases "previous x = previous y")
    case True
    with rx ry have "x' = y'" by (auto split: if_splits)
    with px py have "xs = ys" using root_path_unique[OF _ _ ru] by blast
    with True \<open>x' = y'\<close> Cons.prems(3) show ?thesis
      by (intro exI[of _ 0]) (subst fetch_branch_from_common.simps, auto)
  next
    case False
    have nr: "index_find idx (previous u) = Some u'"
      if u: "(if previous u = block_id r then Some r else index_find idx (previous u)) = Some u'"
        and pu: "is_root_path r idx (u' # us)"
        and v: "(if previous v = block_id r then Some r else index_find idx (previous v)) = Some v'"
        and pv: "is_root_path r idx (v' # vs)" and len: "length us = length vs"
        and ne: "previous u \<noteq> previous v" for u u' us v v' vs
    proof (cases "previous u = block_id r")
      case True
      with u have "u' = r" by simp
      with pu ru have "us = []" by (cases us) auto
      with len have "vs = []" by simp
      with pv have "v' = r" by simp
      with v ne True ru show ?thesis by (auto split: if_splits dest: index_find_Some_mem)
    next
      case False
      with u show ?thesis by simp
    qed
    have fx: "index_find idx (previous x) = Some x'"
      by (rule nr[OF rx px ry py Cons.hyps(1) False])
    have fy: "index_find idx (previous y) = Some y'"
      by (rule nr[OF ry py rx px Cons.hyps(1)[symmetric] False[symmetric]])
    from fx fy False have ne: "block_id x' \<noteq> block_id y'"
      by (auto dest!: index_find_Some_mem)
    from Cons.IH[OF px py ne, of "a1 @ [x]" "a2 @ [y]"]
    obtain k where k: "fetch_branch_from_common idx x' y' (a1 @ [x]) (a2 @ [y]) =
               Some (Inr ((a1 @ [x]) @ take (Suc k) (x' # xs), (a2 @ [y]) @ take (Suc k) (y' # ys)))"
      "drop (Suc k) (x' # xs) = drop (Suc k) (y' # ys)" "Suc k \<le> length xs"
      "(x' # xs) ! k \<noteq> (y' # ys) ! k" by blast
    have "fetch_branch_from_common idx x y a1 a2 =
            fetch_branch_from_common idx x' y' (a1 @ [x]) (a2 @ [y])"
      using False fx fy by (subst fetch_branch_from_common.simps) simp
    with k show ?thesis by (intro exI[of _ "Suc k"]) simp
  qed
qed


lemma last_append_take_Suc: "k < length zs \<Longrightarrow> last (pre @ take (Suc k) zs) = zs ! k"
  by (simp add: take_Suc_conv_app_nth)

lemma root_path_nonempty: "is_root_path r idx p \<Longrightarrow> p \<noteq> []"
  by auto

lemma root_path_of_id:
  assumes iu: "ids_unique r idx" and pr: "previous_resolves r idx"
    and bl: "block_num_linked r idx" and a: "a = block_id r \<or> a \<in> block_id ` set idx"
  shows "\<exists>p. is_root_path r idx p \<and> block_id (hd p) = a \<and>
             (if a = block_id r then Some r else index_find idx a) = Some (hd p)"
proof (cases "a = block_id r")
  case True
  then show ?thesis by (intro exI[of _ "[r]"]) simp
next
  case False
  with a have "a \<in> block_id ` set idx" by simp
  then obtain n where n: "index_find idx a = Some n"
    using index_find_None[of idx a] by (cases "index_find idx a") auto
  then have ni: "n \<in> set idx" "block_id n = a" by (auto dest: index_find_Some_mem)
  from root_path_exists[OF block_num_linked_acyclic[OF bl] pr ni(1)]
  obtain p where "is_root_path r idx (n # p)" by blast
  with False n ni show ?thesis by (intro exI[of _ "n # p"]) simp
qed

lemma fetch_branch_from_paths:
  assumes r: "root s = Some r" and iu: "ids_unique r (index s)"
    and bl: "block_num_linked r (index s)"
    and pa: "is_root_path r (index s) pa"
    and ha: "(if a = block_id r then Some r else index_find (index s) a) = Some (hd pa)"
    and pb: "is_root_path r (index s) pb"
    and hb: "(if b = block_id r then Some r else index_find (index s) b) = Some (hd pb)"
  shows "\<exists>fs ss c. fetch_branch_from_impl s a b = Some (Inr (fs, ss)) \<and>
           pa = fs @ c \<and> pb = ss @ c \<and> c \<noteq> [] \<and>
           (fs \<noteq> [] \<and> ss \<noteq> [] \<longrightarrow> last fs \<noteq> last ss)"
proof -
  let ?idx = "index s"
  have ru: "r \<notin> set ?idx" using iu by (auto simp: ids_unique_def)
  have ne: "pa \<noteq> []" "pb \<noteq> []"
    using root_path_nonempty[OF pa] root_path_nonempty[OF pb] by blast+
  let ?t1 = "block_num (hd pb)"
  let ?P1 = "\<lambda>p. ?t1 < block_num p"
  have t1r: "block_num r \<le> ?t1"
    using root_path_root_lowest[OF bl pb, of "hd pb"] ne by simp
  then have nt1: "\<not> ?t1 < block_num r" by simp
  let ?pa' = "dropWhile ?P1 pa" and ?pre1 = "takeWhile ?P1 pa"
  have pa': "is_root_path r ?idx ?pa'" by (rule root_path_dropWhile[OF pa nt1])
  then have ne1: "?pa' \<noteq> []" by (rule root_path_nonempty)
  have al1: "fetch_branch_from_align r ?idx ?t1 (hd pa) [] = Some (Inr (hd ?pa', ?pre1))"
    using root_path_align[of r ?idx "hd pa" "tl pa" ?t1 "[]"] pa ne nt1 by simp
  let ?t2 = "block_num (hd ?pa')"
  let ?P2 = "\<lambda>p. ?t2 < block_num p"
  have t2r: "block_num r \<le> ?t2"
    using root_path_root_lowest[OF bl pa', of "hd ?pa'"] ne1 by simp
  then have nt2: "\<not> ?t2 < block_num r" by simp
  have t2t1: "?t2 \<le> ?t1" using hd_dropWhile[OF ne1] by simp
  let ?pb' = "dropWhile ?P2 pb" and ?pre2 = "takeWhile ?P2 pb"
  have pb': "is_root_path r ?idx ?pb'" by (rule root_path_dropWhile[OF pb nt2])
  then have ne2: "?pb' \<noteq> []" by (rule root_path_nonempty)
  have al2: "fetch_branch_from_align r ?idx ?t2 (hd pb) [] = Some (Inr (hd ?pb', ?pre2))"
    using root_path_align[of r ?idx "hd pb" "tl pb" ?t2 "[]"] pb ne nt2 by simp
  have same: "block_num (hd ?pb') = ?t2" by (rule root_path_landing[OF bl pb t2r t2t1])
  have len: "length ?pa' = length ?pb'"
    using root_path_length[OF bl pa'] root_path_length[OF bl pb'] same by simp
  have split_a: "pa = ?pre1 @ ?pa'" and split_b: "pb = ?pre2 @ ?pb'" by simp_all
  have impl: "fetch_branch_from_impl s a b =
      (if block_id (hd ?pa') = block_id (hd ?pb') then Some (Inr (?pre1, ?pre2))
       else fetch_branch_from_common ?idx (hd ?pa') (hd ?pb') ?pre1 ?pre2)"
  proof -
    have ha': "(if a = block_id r then Some r else get_block_impl s a) = Some (hd pa)"
      using ha unfolding get_block_impl_def .
    have hb': "(if b = block_id r then Some r else get_block_impl s b) = Some (hd pb)"
      using hb unfolding get_block_impl_def .
    show ?thesis
      unfolding fetch_branch_from_impl_def
      by (simp only: r ha' hb' al1 al2 option.case sum.case prod.case)
  qed
  show ?thesis
  proof (cases "block_id (hd ?pa') = block_id (hd ?pb')")
    case True
    have "hd ?pa' \<in> set (r # ?idx)" "hd ?pb' \<in> set (r # ?idx)"
      using root_path_head_known[OF pa'] root_path_head_known[OF pb'] by simp_all
    with True iu have "hd ?pa' = hd ?pb'"
      unfolding ids_unique_def by (meson distinct_map inj_on_def)
    have eq: "?pa' = ?pb'"
    proof -
      from ne1 ne2 \<open>hd ?pa' = hd ?pb'\<close> obtain x xs ys
        where xs: "?pa' = x # xs" "?pb' = x # ys"
        by (metis list.collapse)
      with pa' pb' have "is_root_path r ?idx (x # xs)" "is_root_path r ?idx (x # ys)"
        by simp_all
      from root_path_unique[OF this ru] xs show ?thesis by simp
    qed
    have one: "?pre1 = [] \<or> ?pre2 = []"
    proof (cases "?pre1 = []")
      case False
      then have "?t1 < block_num (hd pa)" using ne by (cases pa) (auto split: if_splits)
      then have "?t1 \<le> block_num (hd pa)" by simp
      from root_path_landing[OF bl pa t1r this] have "?t2 = ?t1" .
      then have "\<not> ?P2 (hd pb)" by simp
      then have "?pre2 = []" using ne by (cases pb) auto
      then show ?thesis by simp
    qed simp
    from impl True have "fetch_branch_from_impl s a b = Some (Inr (?pre1, ?pre2))" by simp
    moreover have "pb = ?pre2 @ ?pa'" using eq split_b by simp
    ultimately show ?thesis using split_a ne1 one by blast
  next
    case False
    from ne1 ne2 obtain x xs y ys where xy: "?pa' = x # xs" "?pb' = y # ys"
      by (metis list.exhaust)
    with len have l: "length xs = length ys" by simp
    from root_path_common[OF ru _ _ l, of x y ?pre1 ?pre2] pa' pb' xy False
    obtain k where k: "fetch_branch_from_common ?idx x y ?pre1 ?pre2 =
               Some (Inr (?pre1 @ take (Suc k) (x # xs), ?pre2 @ take (Suc k) (y # ys)))"
      "drop (Suc k) (x # xs) = drop (Suc k) (y # ys)" "Suc k \<le> length xs"
      "(x # xs) ! k \<noteq> (y # ys) ! k" by auto
    let ?fs = "?pre1 @ take (Suc k) (x # xs)" and ?ss = "?pre2 @ take (Suc k) (y # ys)"
    let ?c = "drop (Suc k) (x # xs)"
    have "fetch_branch_from_impl s a b = Some (Inr (?fs, ?ss))"
      using impl False xy k(1) by simp
    moreover have "pa = ?fs @ ?c"
      using split_a xy(1) by (metis append.assoc append_take_drop_id)
    moreover have "pb = ?ss @ ?c"
      using split_b xy(2) k(2) by (metis append.assoc append_take_drop_id)
    moreover have "?c \<noteq> []" using k(3) by simp
    moreover have "last ?fs \<noteq> last ?ss"
    proof -
      have "last ?fs = (x # xs) ! k" using k(3)
        by (intro last_append_take_Suc) simp
      moreover have "last ?ss = (y # ys) ! k" using k(3) l
        by (intro last_append_take_Suc) simp
      ultimately show ?thesis using k(4) by simp
    qed
    ultimately show ?thesis by blast
  qed
qed


lemma fetch_branch_from_align_error:
  assumes "fetch_branch_from_align r idx t x acc = Some res"
  shows "\<forall>e. res = Inl e \<longrightarrow> e = block_does_not_exist"
  by (rule fetch_branch_from_align.raw_induct[OF _ assms])
     (auto split: if_splits option.splits)

lemma fetch_branch_from_common_error:
  assumes "fetch_branch_from_common idx x y a1 a2 = Some res"
  shows "\<forall>e. res = Inl e \<longrightarrow> e = block_does_not_exist"
  by (rule fetch_branch_from_common.raw_induct[OF _ assms])
     (auto split: if_splits option.splits)

lemma fetch_branch_from_impl_error:
  assumes "root s \<noteq> None" and "fetch_branch_from_impl s a b = Some (Inl e)"
  shows "e = block_does_not_exist"
proof -
  from assms(1) obtain r where r: "root s = Some r" by auto
  show ?thesis
  proof (cases "if a = block_id r then Some r else get_block_impl s a")
    case None
    with assms(2) r show ?thesis by (simp add: fetch_branch_from_impl_def)
  next
    case fa: (Some na)
    show ?thesis
    proof (cases "if b = block_id r then Some r else get_block_impl s b")
      case None
      with assms(2) r fa show ?thesis by (simp add: fetch_branch_from_impl_def)
    next
      case fb: (Some nb)
      show ?thesis
      proof (cases "fetch_branch_from_align r (index s) (block_num nb) na []")
        case None
        with assms(2) r fa fb show ?thesis by (simp add: fetch_branch_from_impl_def)
      next
        case a1: (Some res1)
        show ?thesis
        proof (cases res1)
          case (Inl e1)
          with fetch_branch_from_align_error[OF a1] assms(2) r fa fb a1 show ?thesis
            by (simp add: fetch_branch_from_impl_def)
        next
          case (Inr p1)
          obtain x1 r1 where p1: "p1 = (x1, r1)" by (cases p1)
          show ?thesis
          proof (cases "fetch_branch_from_align r (index s) (block_num x1) nb []")
            case None
            with assms(2) r fa fb a1 Inr p1 show ?thesis
              by (simp add: fetch_branch_from_impl_def)
          next
            case a2: (Some res2)
            show ?thesis
            proof (cases res2)
              case (Inl e2)
              with fetch_branch_from_align_error[OF a2] assms(2) r fa fb a1 \<open>res1 = Inr p1\<close> p1 a2
              show ?thesis by (simp add: fetch_branch_from_impl_def)
            next
              case i2: (Inr p2)
              obtain x2 r2 where p2: "p2 = (x2, r2)" by (cases p2)
              from assms(2) r fa fb a1 Inr p1 a2 i2 p2
              have "block_id x1 \<noteq> block_id x2 \<and>
                    fetch_branch_from_common (index s) x1 x2 r1 r2 = Some (Inl e)"
                by (simp add: fetch_branch_from_impl_def split: if_splits)
              with fetch_branch_from_common_error show ?thesis by blast
            qed
          qed
        qed
      qed
    qed
  qed
qed

text \<open>
  The branches in a tree of the data model. In a tree that satisfies the invariants of the data model, let \<open>a\<close> and \<open>b\<close>
  each be the root id or an id of the index, with paths \<open>pa\<close> and \<open>pb\<close> to the root.
  \<^verbatim>\<open>fetch_branch_from(a, b)\<close> returns a pair \<open>(fs, ss)\<close> such that \<open>pa = fs @ c\<close> and
  \<open>pb = ss @ c\<close> for a common rest \<open>c\<close>, which is not empty and starts at the lowest common
  ancestor: \<open>c\<close> cannot be longer, because the last nodes of \<open>fs\<close> and \<open>ss\<close> differ when both
  are there. Both parts run from the tip down. For \<open>a = b\<close> the result is two empty
  branches. When \<open>a\<close> or \<open>b\<close> is neither the root id nor in the index the call throws
  \<^verbatim>\<open>fork_db_block_not_found\<close>, and it throws nothing else.
\<close>

lemma fetch_branch_from_tree:
  assumes r: "root s = Some r" and iu: "ids_unique r (index s)"
    and pr: "previous_resolves r (index s)" and bl: "block_num_linked r (index s)"
  shows "((a = block_id r \<or> a \<in> block_id ` set (index s)) \<and>
          (b = block_id r \<or> b \<in> block_id ` set (index s)) \<longrightarrow>
            (\<exists>pa pb fs ss c.
               is_root_path r (index s) pa \<and> block_id (hd pa) = a \<and>
               is_root_path r (index s) pb \<and> block_id (hd pb) = b \<and>
               fetch_branch_from_impl s a b = Some (Inr (fs, ss)) \<and>
               pa = fs @ c \<and> pb = ss @ c \<and> c \<noteq> [] \<and>
               (fs \<noteq> [] \<and> ss \<noteq> [] \<longrightarrow> last fs \<noteq> last ss))) \<and>
         (a = block_id r \<or> a \<in> block_id ` set (index s) \<longrightarrow>
            fetch_branch_from_impl s a a = Some (Inr ([], []))) \<and>
         (\<not> (a = block_id r \<or> a \<in> block_id ` set (index s)) \<or>
          \<not> (b = block_id r \<or> b \<in> block_id ` set (index s)) \<longrightarrow>
            fetch_branch_from_impl s a b = Some (Inl block_does_not_exist)) \<and>
         (\<forall>e. fetch_branch_from_impl s a b = Some (Inl e) \<longrightarrow> e = block_does_not_exist)"
proof -
  let ?idx = "index s"
  have paths: "\<exists>pa pb fs ss c.
               is_root_path r ?idx pa \<and> block_id (hd pa) = a' \<and>
               is_root_path r ?idx pb \<and> block_id (hd pb) = b' \<and>
               fetch_branch_from_impl s a' b' = Some (Inr (fs, ss)) \<and>
               pa = fs @ c \<and> pb = ss @ c \<and> c \<noteq> [] \<and>
               (fs \<noteq> [] \<and> ss \<noteq> [] \<longrightarrow> last fs \<noteq> last ss) \<and>
               (a' = b' \<longrightarrow> pa = pb)"
    if a': "a' = block_id r \<or> a' \<in> block_id ` set ?idx"
      and b': "b' = block_id r \<or> b' \<in> block_id ` set ?idx" for a' b'
  proof -
    from root_path_of_id[OF iu pr bl a'] obtain pa where pa: "is_root_path r ?idx pa"
      "block_id (hd pa) = a'"
      "(if a' = block_id r then Some r else index_find ?idx a') = Some (hd pa)" by blast
    from root_path_of_id[OF iu pr bl b'] obtain pb where pb: "is_root_path r ?idx pb"
      "block_id (hd pb) = b'"
      "(if b' = block_id r then Some r else index_find ?idx b') = Some (hd pb)" by blast
    from fetch_branch_from_paths[OF r iu bl pa(1,3) pb(1,3)]
    obtain fs ss c where res: "fetch_branch_from_impl s a' b' = Some (Inr (fs, ss))"
      "pa = fs @ c" "pb = ss @ c" "c \<noteq> []"
      "fs \<noteq> [] \<and> ss \<noteq> [] \<longrightarrow> last fs \<noteq> last ss" by blast
    have "pa = pb" if "a' = b'"
    proof -
      have ru: "r \<notin> set ?idx" using iu by (auto simp: ids_unique_def)
      from that pa(3) pb(3) have "hd pa = hd pb" by (auto split: if_splits)
      with root_path_nonempty[OF pa(1)] root_path_nonempty[OF pb(1)]
      obtain x xs ys where xs: "pa = x # xs" "pb = x # ys" by (metis list.collapse)
      with pa(1) pb(1) have "is_root_path r ?idx (x # xs)" "is_root_path r ?idx (x # ys)"
        by simp_all
      from root_path_unique[OF this ru] xs show ?thesis by simp
    qed
    with pa(1,2) pb(1,2) res show ?thesis by blast
  qed
  have 1: "(a = block_id r \<or> a \<in> block_id ` set ?idx) \<and>
          (b = block_id r \<or> b \<in> block_id ` set ?idx) \<longrightarrow>
            (\<exists>pa pb fs ss c.
               is_root_path r ?idx pa \<and> block_id (hd pa) = a \<and>
               is_root_path r ?idx pb \<and> block_id (hd pb) = b \<and>
               fetch_branch_from_impl s a b = Some (Inr (fs, ss)) \<and>
               pa = fs @ c \<and> pb = ss @ c \<and> c \<noteq> [] \<and>
               (fs \<noteq> [] \<and> ss \<noteq> [] \<longrightarrow> last fs \<noteq> last ss))"
    using paths[of a b] by blast
  have 2: "fetch_branch_from_impl s a a = Some (Inr ([], []))"
    if "a = block_id r \<or> a \<in> block_id ` set ?idx"
  proof -
    from paths[OF that that] obtain pa fs ss c where
      res: "fetch_branch_from_impl s a a = Some (Inr (fs, ss))" "pa = fs @ c" "pa = ss @ c"
      "fs \<noteq> [] \<and> ss \<noteq> [] \<longrightarrow> last fs \<noteq> last ss" by blast
    from res(2,3) have "fs = ss" by simp
    with res(4) have "fs = []" "ss = []" by auto
    with res(1) show ?thesis by simp
  qed
  have 3: "fetch_branch_from_impl s a b = Some (Inl block_does_not_exist)"
    if "\<not> (a = block_id r \<or> a \<in> block_id ` set ?idx) \<or>
        \<not> (b = block_id r \<or> b \<in> block_id ` set ?idx)"
  proof (cases "a = block_id r \<or> a \<in> block_id ` set ?idx")
    case False
    then have "index_find ?idx a = None" "a \<noteq> block_id r" by (simp_all add: index_find_None)
    with r show ?thesis by (simp add: fetch_branch_from_impl_def get_block_impl_def)
  next
    case True
    with that have "index_find ?idx b = None" "b \<noteq> block_id r"
      by (simp_all add: index_find_None)
    with r show ?thesis
      by (simp add: fetch_branch_from_impl_def get_block_impl_def split: option.splits)
  qed
  have 4: "\<forall>e. fetch_branch_from_impl s a b = Some (Inl e) \<longrightarrow> e = block_does_not_exist"
    using fetch_branch_from_impl_error[of s a b] r by simp
  from 1 2 3 4 show ?thesis by blast
qed

lemma align_unfold:
  "fetch_branch_from_align r idx n b acc =
     (if n < block_num b then
        (case parent_of r idx b of
           None \<Rightarrow> Some (Inl block_does_not_exist)
         | Some p \<Rightarrow> fetch_branch_from_align r idx n p (acc @ [b]))
      else Some (Inr (b, acc)))"
  by (subst fetch_branch_from_align.simps) (simp add: parent_of_def)

lemma align_runs_off:
  assumes "is_walk r idx ch" and "ch \<noteq> []" and "\<forall>x\<in>set ch. n < block_num x"
    and "parent_of r idx (last ch) = None"
  shows "fetch_branch_from_align r idx n (hd ch) acc = Some (Inl block_does_not_exist)"
  using assms
proof (induction ch arbitrary: acc rule: induct_list012)
  case 1
  then show ?case by simp
next
  case (2 x)
  then show ?case by (subst align_unfold) simp
next
  case (3 x y zs)
  from "3.prems" have st: "n < block_num x" "parent_of r idx x = Some y" by simp_all
  from "3.prems" have "fetch_branch_from_align r idx n (hd (y # zs)) (acc @ [x]) =
      Some (Inl block_does_not_exist)"
    by (intro "3.IH"(2)) simp_all
  with st show ?case by (subst align_unfold) simp
qed

lemma align_stops:
  assumes "is_walk r idx (ch @ [stop])" and "\<forall>x\<in>set ch. n < block_num x"
    and "\<not> n < block_num stop"
  shows "fetch_branch_from_align r idx n (hd (ch @ [stop])) acc = Some (Inr (stop, acc @ ch))"
  using assms
proof (induction ch arbitrary: acc)
  case Nil
  then show ?case by (subst align_unfold) simp
next
  case (Cons x ch)
  obtain y zs where yz: "ch @ [stop] = y # zs" by (cases "ch @ [stop]") auto
  with Cons.prems(1) have st: "parent_of r idx x = Some y" "is_walk r idx (ch @ [stop])"
    by simp_all
  from Cons.IH[OF st(2), of "acc @ [x]"] Cons.prems(2,3) yz
  have "fetch_branch_from_align r idx n y (acc @ [x]) = Some (Inr (stop, acc @ x # ch))"
    by simp
  with st(1) Cons.prems(2) show ?case by (subst align_unfold) simp
qed

lemma common_runs_off:
  assumes "is_index_walk idx wa" and "is_index_walk idx wb"
    and "wa \<noteq> []" and "length wa = length wb"
    and "\<forall>(x, y)\<in>set (zip wa wb). previous x \<noteq> previous y"
    and "index_find idx (previous (last wa)) = None \<or>
         index_find idx (previous (last wb)) = None"
  shows "fetch_branch_from_common idx (hd wa) (hd wb) ra rb = Some (Inl block_does_not_exist)"
  using assms
proof (induction wa arbitrary: wb ra rb rule: induct_list012)
  case 1
  then show ?case by simp
next
  case (2 x)
  then obtain y where y: "wb = [y]" by (cases wb) auto
  with 2 show ?case
    by (subst fetch_branch_from_common.simps) (auto split: option.splits)
next
  case (3 x x2 xs)
  then obtain y y2 ys where y: "wb = y # y2 # ys"
    by (cases wb; cases "tl wb") auto
  with "3.prems" have st: "previous x \<noteq> previous y" "index_find idx (previous x) = Some x2"
    "index_find idx (previous y) = Some y2" by simp_all
  from "3.prems" y have "fetch_branch_from_common idx (hd (x2 # xs)) (hd (y2 # ys))
      (ra @ [x]) (rb @ [y]) = Some (Inl block_does_not_exist)"
    by (intro "3.IH"(2)) simp_all
  with st y show ?case by (subst fetch_branch_from_common.simps) simp
qed


lemma fetch_branch_from_first_runs_off:
  assumes r: "root s = Some r"
    and ta: "(if a = block_id r then Some r else get_block_impl s a) = Some fa"
    and tb: "(if b = block_id r then Some r else get_block_impl s b) = Some fb"
    and w: "is_walk r (index s) cha" "cha \<noteq> []" "hd cha = fa"
      "\<forall>x\<in>set cha. block_num fb < block_num x" "parent_of r (index s) (last cha) = None"
  shows "fetch_branch_from_impl s a b = Some (Inl block_does_not_exist)"
proof -
  from align_runs_off[OF w(1,2,4,5), of "[]"] w(3)
  have al: "fetch_branch_from_align r (index s) (block_num fb) fa [] =
      Some (Inl block_does_not_exist)" by simp
  show ?thesis unfolding fetch_branch_from_impl_def
    by (simp only: r ta tb al option.case sum.case)
qed

lemma fetch_branch_from_second_runs_off:
  assumes r: "root s = Some r"
    and ta: "(if a = block_id r then Some r else get_block_impl s a) = Some fa"
    and tb: "(if b = block_id r then Some r else get_block_impl s b) = Some fb"
    and w1: "is_walk r (index s) (da @ [fa'])" "hd (da @ [fa']) = fa"
      "\<forall>x\<in>set da. block_num fb < block_num x" "block_num fa' \<le> block_num fb"
    and w2: "is_walk r (index s) chb" "chb \<noteq> []" "hd chb = fb"
      "\<forall>x\<in>set chb. block_num fa' < block_num x" "parent_of r (index s) (last chb) = None"
  shows "fetch_branch_from_impl s a b = Some (Inl block_does_not_exist)"
proof -
  from w1(4) have "\<not> block_num fb < block_num fa'" by simp
  from align_stops[OF w1(1,3) this, of "[]"] w1(2)
  have al1: "fetch_branch_from_align r (index s) (block_num fb) fa [] = Some (Inr (fa', da))"
    by simp
  from align_runs_off[OF w2(1,2,4,5), of "[]"] w2(3)
  have al2: "fetch_branch_from_align r (index s) (block_num fa') fb [] =
      Some (Inl block_does_not_exist)" by simp
  show ?thesis unfolding fetch_branch_from_impl_def
    by (simp only: r ta tb al1 al2 option.case sum.case prod.case)
qed

lemma fetch_branch_from_third_runs_off:
  assumes r: "root s = Some r"
    and ta: "(if a = block_id r then Some r else get_block_impl s a) = Some fa"
    and tb: "(if b = block_id r then Some r else get_block_impl s b) = Some fb"
    and w1: "is_walk r (index s) (da @ [fa'])" "hd (da @ [fa']) = fa"
      "\<forall>x\<in>set da. block_num fb < block_num x" "block_num fa' \<le> block_num fb"
    and w2: "is_walk r (index s) (db @ [fb'])" "hd (db @ [fb']) = fb"
      "\<forall>x\<in>set db. block_num fa' < block_num x" "block_num fb' \<le> block_num fa'"
    and ne: "block_id fa' \<noteq> block_id fb'"
    and w3: "is_index_walk (index s) wa" "is_index_walk (index s) wb" "wa \<noteq> []"
      "length wa = length wb" "hd wa = fa'" "hd wb = fb'"
      "\<forall>(x, y)\<in>set (zip wa wb). previous x \<noteq> previous y"
      "index_find (index s) (previous (last wa)) = None \<or>
       index_find (index s) (previous (last wb)) = None"
  shows "fetch_branch_from_impl s a b = Some (Inl block_does_not_exist)"
proof -
  from w1(4) have "\<not> block_num fb < block_num fa'" by simp
  from align_stops[OF w1(1,3) this, of "[]"] w1(2)
  have al1: "fetch_branch_from_align r (index s) (block_num fb) fa [] = Some (Inr (fa', da))"
    by simp
  from w2(4) have "\<not> block_num fa' < block_num fb'" by simp
  from align_stops[OF w2(1,3) this, of "[]"] w2(2)
  have al2: "fetch_branch_from_align r (index s) (block_num fa') fb [] = Some (Inr (fb', db))"
    by simp
  from common_runs_off[OF w3(1,2,3,4,7,8), of da db] w3(5,6)
  have co: "fetch_branch_from_common (index s) fa' fb' da db = Some (Inl block_does_not_exist)"
    by simp
  show ?thesis unfolding fetch_branch_from_impl_def
    by (simp only: r ta tb al1 al2 co ne option.case sum.case prod.case if_False)
qed


text \<open>
  Claim C8, as stated, fails where the block numbers are not those of the data model,
  which \<^verbatim>\<open>add\<close> does not check. In the example 12 is on top of 11 and both have the
  block number 11: the first two loops push nothing, the third looks the root up in the
  index, and the call throws where the claim asks for the branches \<open>([12], [])\<close>.
\<close>

theorem fetch_branch_from_counterexample:
  "root ex_level = Some (blk 10 9 10 5 True) \<and>
   get_block_impl ex_level 12 = Some (blk 12 11 11 5 False) \<and>
   get_block_impl ex_level 11 = Some (blk 11 10 11 5 True) \<and>
   previous (blk 12 11 11 5 False) = 11 \<and> previous (blk 11 10 11 5 True) = 10 \<and>
   fetch_branch_from_impl ex_level 12 11 = Some (Inl block_does_not_exist)"
  by (simp add: ex_level_eq fetch_branch_from_impl_def get_block_impl_def index_find_def
        fetch_branch_from_align.simps fetch_branch_from_common.simps blk_def)

text \<open>
  Claim C8, amended. In a tree that satisfies the invariants of the data model (unique ids,
  resolving parent links, block numbers that grow by one from parent to child), for two
  ids \<open>a\<close> and \<open>b\<close> that are the root id or ids of the index, \<^verbatim>\<open>fetch_branch_from(a, b)\<close>
  returns the parts of the two paths to the root above their lowest common ancestor, from
  the tip down, and two empty branches for \<open>a = b\<close>. In every tree with the root set: the
  call throws \<^verbatim>\<open>fork_db_block_not_found\<close> when \<open>a\<close> or \<open>b\<close> is neither the root id nor in
  the index, and when a walk comes to a node whose parent it has to look up and does not
  find, which is so when the first loop runs along \<open>cha\<close>, above the block number of the
  other tip, to a node without parent; when the first loop stops at \<open>fa'\<close> and the second
  runs along \<open>chb\<close> to a node without parent; and when both stop, at blocks with
  different ids, and the third loop runs along \<open>wa\<close> and \<open>wb\<close> to a level where one of
  the parents is not in the index. The call throws nothing else.
\<close>

theorem fetch_branch_from_lca:
  assumes r: "root s = Some r"
  shows "(ids_unique r (index s) \<and> previous_resolves r (index s) \<and>
          block_num_linked r (index s) \<longrightarrow>
            ((a = block_id r \<or> a \<in> block_id ` set (index s)) \<and>
             (b = block_id r \<or> b \<in> block_id ` set (index s)) \<longrightarrow>
               (\<exists>pa pb fs ss c.
                  is_root_path r (index s) pa \<and> block_id (hd pa) = a \<and>
                  is_root_path r (index s) pb \<and> block_id (hd pb) = b \<and>
                  fetch_branch_from_impl s a b = Some (Inr (fs, ss)) \<and>
                  pa = fs @ c \<and> pb = ss @ c \<and> c \<noteq> [] \<and>
                  (fs \<noteq> [] \<and> ss \<noteq> [] \<longrightarrow> last fs \<noteq> last ss))) \<and>
            (a = block_id r \<or> a \<in> block_id ` set (index s) \<longrightarrow>
               fetch_branch_from_impl s a a = Some (Inr ([], [])))) \<and>
         (\<not> (a = block_id r \<or> a \<in> block_id ` set (index s)) \<or>
          \<not> (b = block_id r \<or> b \<in> block_id ` set (index s)) \<longrightarrow>
            fetch_branch_from_impl s a b = Some (Inl block_does_not_exist)) \<and>
         (\<forall>e. fetch_branch_from_impl s a b = Some (Inl e) \<longrightarrow> e = block_does_not_exist) \<and>
         ((if a = block_id r then Some r else get_block_impl s a) = Some fa \<and>
          (if b = block_id r then Some r else get_block_impl s b) = Some fb \<and>
          is_walk r (index s) cha \<and> cha \<noteq> [] \<and> hd cha = fa \<and>
          (\<forall>x\<in>set cha. block_num fb < block_num x) \<and>
          parent_of r (index s) (last cha) = None \<longrightarrow>
            fetch_branch_from_impl s a b = Some (Inl block_does_not_exist)) \<and>
         ((if a = block_id r then Some r else get_block_impl s a) = Some fa \<and>
          (if b = block_id r then Some r else get_block_impl s b) = Some fb \<and>
          is_walk r (index s) (da @ [fa']) \<and> hd (da @ [fa']) = fa \<and>
          (\<forall>x\<in>set da. block_num fb < block_num x) \<and> block_num fa' \<le> block_num fb \<and>
          is_walk r (index s) chb \<and> chb \<noteq> [] \<and> hd chb = fb \<and>
          (\<forall>x\<in>set chb. block_num fa' < block_num x) \<and>
          parent_of r (index s) (last chb) = None \<longrightarrow>
            fetch_branch_from_impl s a b = Some (Inl block_does_not_exist)) \<and>
         ((if a = block_id r then Some r else get_block_impl s a) = Some fa \<and>
          (if b = block_id r then Some r else get_block_impl s b) = Some fb \<and>
          is_walk r (index s) (da @ [fa']) \<and> hd (da @ [fa']) = fa \<and>
          (\<forall>x\<in>set da. block_num fb < block_num x) \<and> block_num fa' \<le> block_num fb \<and>
          is_walk r (index s) (db @ [fb']) \<and> hd (db @ [fb']) = fb \<and>
          (\<forall>x\<in>set db. block_num fa' < block_num x) \<and> block_num fb' \<le> block_num fa' \<and>
          block_id fa' \<noteq> block_id fb' \<and>
          is_index_walk (index s) wa \<and> is_index_walk (index s) wb \<and> wa \<noteq> [] \<and>
          length wa = length wb \<and> hd wa = fa' \<and> hd wb = fb' \<and>
          (\<forall>(x, y)\<in>set (zip wa wb). previous x \<noteq> previous y) \<and>
          (index_find (index s) (previous (last wa)) = None \<or>
           index_find (index s) (previous (last wb)) = None) \<longrightarrow>
            fetch_branch_from_impl s a b = Some (Inl block_does_not_exist))"
proof (intro conjI impI)
  assume inv: "ids_unique r (index s) \<and> previous_resolves r (index s) \<and>
          block_num_linked r (index s)"
  then have t: "ids_unique r (index s)" "previous_resolves r (index s)"
    "block_num_linked r (index s)" by simp_all
  note tree = fetch_branch_from_tree[OF r t, of a b]
  show "\<exists>pa pb fs ss c.
          is_root_path r (index s) pa \<and> block_id (hd pa) = a \<and>
          is_root_path r (index s) pb \<and> block_id (hd pb) = b \<and>
          fetch_branch_from_impl s a b = Some (Inr (fs, ss)) \<and>
          pa = fs @ c \<and> pb = ss @ c \<and> c \<noteq> [] \<and>
          (fs \<noteq> [] \<and> ss \<noteq> [] \<longrightarrow> last fs \<noteq> last ss)"
    if "(a = block_id r \<or> a \<in> block_id ` set (index s)) \<and>
        (b = block_id r \<or> b \<in> block_id ` set (index s))"
    using tree that by blast
  show "fetch_branch_from_impl s a a = Some (Inr ([], []))"
    if "a = block_id r \<or> a \<in> block_id ` set (index s)"
    using tree that by blast
next
  assume u: "\<not> (a = block_id r \<or> a \<in> block_id ` set (index s)) \<or>
          \<not> (b = block_id r \<or> b \<in> block_id ` set (index s))"
  show "fetch_branch_from_impl s a b = Some (Inl block_does_not_exist)"
  proof (cases "a = block_id r \<or> a \<in> block_id ` set (index s)")
    case False
    then have "index_find (index s) a = None" "a \<noteq> block_id r" by (simp_all add: index_find_None)
    with r show ?thesis by (simp add: fetch_branch_from_impl_def get_block_impl_def)
  next
    case True
    with u have "index_find (index s) b = None" "b \<noteq> block_id r"
      by (simp_all add: index_find_None)
    with r show ?thesis
      by (simp add: fetch_branch_from_impl_def get_block_impl_def split: option.splits)
  qed
next
  show "\<forall>e. fetch_branch_from_impl s a b = Some (Inl e) \<longrightarrow> e = block_does_not_exist"
    using fetch_branch_from_impl_error[of s a b] r by simp
next
  assume "(if a = block_id r then Some r else get_block_impl s a) = Some fa \<and>
          (if b = block_id r then Some r else get_block_impl s b) = Some fb \<and>
          is_walk r (index s) cha \<and> cha \<noteq> [] \<and> hd cha = fa \<and>
          (\<forall>x\<in>set cha. block_num fb < block_num x) \<and>
          parent_of r (index s) (last cha) = None"
  then show "fetch_branch_from_impl s a b = Some (Inl block_does_not_exist)"
    by (intro fetch_branch_from_first_runs_off[OF r, of a fa b fb cha]) (elim conjE, assumption)+
next
  assume "(if a = block_id r then Some r else get_block_impl s a) = Some fa \<and>
          (if b = block_id r then Some r else get_block_impl s b) = Some fb \<and>
          is_walk r (index s) (da @ [fa']) \<and> hd (da @ [fa']) = fa \<and>
          (\<forall>x\<in>set da. block_num fb < block_num x) \<and> block_num fa' \<le> block_num fb \<and>
          is_walk r (index s) chb \<and> chb \<noteq> [] \<and> hd chb = fb \<and>
          (\<forall>x\<in>set chb. block_num fa' < block_num x) \<and>
          parent_of r (index s) (last chb) = None"
  then show "fetch_branch_from_impl s a b = Some (Inl block_does_not_exist)"
    by (intro fetch_branch_from_second_runs_off[OF r, of a fa b fb da fa' chb]) (elim conjE, assumption)+
next
  assume "(if a = block_id r then Some r else get_block_impl s a) = Some fa \<and>
          (if b = block_id r then Some r else get_block_impl s b) = Some fb \<and>
          is_walk r (index s) (da @ [fa']) \<and> hd (da @ [fa']) = fa \<and>
          (\<forall>x\<in>set da. block_num fb < block_num x) \<and> block_num fa' \<le> block_num fb \<and>
          is_walk r (index s) (db @ [fb']) \<and> hd (db @ [fb']) = fb \<and>
          (\<forall>x\<in>set db. block_num fa' < block_num x) \<and> block_num fb' \<le> block_num fa' \<and>
          block_id fa' \<noteq> block_id fb' \<and>
          is_index_walk (index s) wa \<and> is_index_walk (index s) wb \<and> wa \<noteq> [] \<and>
          length wa = length wb \<and> hd wa = fa' \<and> hd wb = fb' \<and>
          (\<forall>(x, y)\<in>set (zip wa wb). previous x \<noteq> previous y) \<and>
          (index_find (index s) (previous (last wa)) = None \<or>
           index_find (index s) (previous (last wb)) = None)"
  then show "fetch_branch_from_impl s a b = Some (Inl block_does_not_exist)"
    by (intro fetch_branch_from_third_runs_off[OF r, of a fa b fb da fa' db fb' wa wb]) (elim conjE, assumption)+
qed


theorem fetch_branch_from_lca_witness:
  "root ex_fork_13 = Some (blk 10 9 10 5 True) \<and>
   ids_unique (blk 10 9 10 5 True) (index ex_fork_13) \<and>
   previous_resolves (blk 10 9 10 5 True) (index ex_fork_13) \<and>
   block_num_linked (blk 10 9 10 5 True) (index ex_fork_13) \<and>
   fetch_branch_from_impl ex_fork_13 13 21 =
     Some (Inr ([blk 13 12 13 5 True, blk 12 11 12 5 False, blk 11 10 11 5 True],
                [blk 21 10 11 5 True])) \<and>
   is_root_path (blk 10 9 10 5 True) (index ex_fork_13)
     ([blk 13 12 13 5 True, blk 12 11 12 5 False, blk 11 10 11 5 True] @ [blk 10 9 10 5 True]) \<and>
   is_root_path (blk 10 9 10 5 True) (index ex_fork_13)
     ([blk 21 10 11 5 True] @ [blk 10 9 10 5 True]) \<and>
   fetch_branch_from_impl ex_fork_13 12 12 = Some (Inr ([], [])) \<and>
   fetch_branch_from_impl ex_fork_13 77 12 = Some (Inl block_does_not_exist) \<and>
   root ex_orphan = Some (blk 10 9 10 5 True) \<and>
   get_block_impl ex_orphan 12 = Some (blk 12 11 12 5 False) \<and>
   get_block_impl ex_orphan 21 = Some (blk 21 10 11 6 True) \<and>
   parent_of (blk 10 9 10 5 True) (index ex_orphan) (blk 12 11 12 5 False) = None \<and>
   fetch_branch_from_impl ex_orphan 12 21 = Some (Inl block_does_not_exist) \<and>
   fetch_branch_from_impl ex_orphan 21 12 = Some (Inl block_does_not_exist) \<and>
   root ex_level = Some (blk 10 9 10 5 True) \<and>
   get_block_impl ex_level 12 = Some (blk 12 11 11 5 False) \<and>
   get_block_impl ex_level 11 = Some (blk 11 10 11 5 True) \<and>
   index_find (index ex_level) (previous (blk 11 10 11 5 True)) = None \<and>
   fetch_branch_from_impl ex_level 12 11 = Some (Inl block_does_not_exist)"
proof -
  let ?r = "blk 10 9 10 5 True"
  have h: "root ex_fork_13 = Some ?r"
    "ids_unique ?r (index ex_fork_13)"
    "previous_resolves ?r (index ex_fork_13)"
    "block_num_linked ?r (index ex_fork_13)"
    by (simp_all add: ex_fork_13_eq inv_defs blk_def)
  have e: "fetch_branch_from_impl ex_fork_13 13 21 =
     Some (Inr ([blk 13 12 13 5 True, blk 12 11 12 5 False, blk 11 10 11 5 True],
                [blk 21 10 11 5 True]))"
    by (simp add: ex_fork_13_eq fetch_branch_from_impl_def get_block_impl_def index_find_def
          fetch_branch_from_align.simps fetch_branch_from_common.simps blk_def)
  have p: "is_root_path ?r (index ex_fork_13)
     ([blk 13 12 13 5 True, blk 12 11 12 5 False, blk 11 10 11 5 True] @ [?r])"
    "is_root_path ?r (index ex_fork_13) ([blk 21 10 11 5 True] @ [?r])"
    by (simp_all add: ex_fork_13_eq index_find_def blk_def)
  have m: "12 \<in> block_id ` set (index ex_fork_13)" "77 \<notin> block_id ` set (index ex_fork_13)"
    "77 \<noteq> block_id ?r"
    by (simp_all add: ex_fork_13_eq blk_def)
  from fetch_branch_from_lca[OF h(1), where a = 12 and b = 12] h(2,3,4) m(1)
  have 2: "fetch_branch_from_impl ex_fork_13 12 12 = Some (Inr ([], []))" by blast
  from fetch_branch_from_lca[OF h(1), where a = 77 and b = 12] m(2,3)
  have 3: "fetch_branch_from_impl ex_fork_13 77 12 = Some (Inl block_does_not_exist)" by blast
  let ?b12 = "blk 12 11 12 5 False" and ?b21 = "blk 21 10 11 6 True"
  have o: "root ex_orphan = Some ?r"
    "get_block_impl ex_orphan 12 = Some ?b12" "get_block_impl ex_orphan 21 = Some ?b21"
    "parent_of ?r (index ex_orphan) ?b12 = None"
    by (simp_all add: ex_orphan_eq get_block_impl_def index_find_def parent_of_def blk_def)
  have ot: "(if 12 = block_id ?r then Some ?r else get_block_impl ex_orphan 12) = Some ?b12"
    "(if 21 = block_id ?r then Some ?r else get_block_impl ex_orphan 21) = Some ?b21"
    using o(2,3) by (simp_all add: blk_def)
  have ow: "is_walk ?r (index ex_orphan) [?b12]" "[?b12] \<noteq> []" "hd [?b12] = ?b12"
    "\<forall>x\<in>set [?b12]. block_num ?b21 < block_num x" "parent_of ?r (index ex_orphan) (last [?b12]) = None"
    "is_walk ?r (index ex_orphan) ([] @ [?b21])" "hd ([] @ [?b21]) = ?b21"
    "\<forall>x\<in>set []. block_num ?b12 < block_num x" "block_num ?b21 \<le> block_num ?b12"
    using o(4) by (simp_all add: blk_def)
  from fetch_branch_from_lca[OF o(1), where a = 12 and b = 21 and fa = ?b12 and fb = ?b21
      and cha = "[?b12]"] ot ow
  have 4: "fetch_branch_from_impl ex_orphan 12 21 = Some (Inl block_does_not_exist)" by blast
  from fetch_branch_from_lca[OF o(1), where a = 21 and b = 12 and fa = ?b21 and fb = ?b12
      and da = "[]" and fa' = ?b21 and chb = "[?b12]"] ot ow
  have 5: "fetch_branch_from_impl ex_orphan 21 12 = Some (Inl block_does_not_exist)" by blast
  let ?c12 = "blk 12 11 11 5 False" and ?c11 = "blk 11 10 11 5 True"
  have l: "root ex_level = Some ?r"
    "get_block_impl ex_level 12 = Some ?c12" "get_block_impl ex_level 11 = Some ?c11"
    "index_find (index ex_level) (previous ?c11) = None"
    by (simp_all add: ex_level_eq get_block_impl_def index_find_def blk_def)
  have lt: "(if 12 = block_id ?r then Some ?r else get_block_impl ex_level 12) = Some ?c12"
    "(if 11 = block_id ?r then Some ?r else get_block_impl ex_level 11) = Some ?c11"
    using l(2,3) by (simp_all add: blk_def)
  have lw: "is_walk ?r (index ex_level) ([] @ [?c12])" "hd ([] @ [?c12]) = ?c12"
    "\<forall>x\<in>set []. block_num ?c11 < block_num x" "block_num ?c12 \<le> block_num ?c11"
    "is_walk ?r (index ex_level) ([] @ [?c11])" "hd ([] @ [?c11]) = ?c11"
    "\<forall>x\<in>set []. block_num ?c12 < block_num x" "block_num ?c11 \<le> block_num ?c12"
    "block_id ?c12 \<noteq> block_id ?c11"
    "is_index_walk (index ex_level) [?c12]" "is_index_walk (index ex_level) [?c11]"
    "[?c12] \<noteq> []" "length [?c12] = length [?c11]" "hd [?c12] = ?c12" "hd [?c11] = ?c11"
    "\<forall>(x, y)\<in>set (zip [?c12] [?c11]). previous x \<noteq> previous y"
    "index_find (index ex_level) (previous (last [?c12])) = None \<or>
     index_find (index ex_level) (previous (last [?c11])) = None"
    using l(4) by (simp_all add: blk_def)
  from fetch_branch_from_lca[OF l(1), where a = 12 and b = 11 and fa = ?c12 and fb = ?c11
      and da = "[]" and fa' = ?c12 and db = "[]" and fb' = ?c11
      and wa = "[?c12]" and wb = "[?c11]"] lt lw
  have 6: "fetch_branch_from_impl ex_level 12 11 = Some (Inl block_does_not_exist)" by blast
  from h e p 2 3 o 4 5 l 6 show ?thesis by simp
qed

section \<open>The composite order of the index\<close>

lemma by_lib_irrefl: "\<not> by_lib_block_num a a"
  by (simp add: by_lib_block_num_def)

lemma by_lib_total:
  "block_id a \<noteq> block_id b \<Longrightarrow> by_lib_block_num a b \<or> by_lib_block_num b a"
  unfolding by_lib_block_num_def by (metis (full_types) linorder_neqE)

lemma lex_step:
  fixes a1 b1 c1 :: "'a::linorder"
  assumes "a1 < b1 \<or> (\<not> b1 < a1 \<and> A)" and "b1 < c1 \<or> (\<not> c1 < b1 \<and> B)"
    and "A \<Longrightarrow> B \<Longrightarrow> C"
  shows "a1 < c1 \<or> (\<not> c1 < a1 \<and> C)"
  using assms by (metis less_trans not_less_iff_gr_or_eq)

lemma by_lib_trans:
  assumes "by_lib_block_num a b" and "by_lib_block_num b c"
  shows "by_lib_block_num a c"
proof -
  have 4: "block_id a < block_id c"
    if "block_id a < block_id b" "block_id b < block_id c"
    using that by simp
  have 3: "block_num c < block_num a \<or> (\<not> block_num a < block_num c \<and> block_id a < block_id c)"
    if "block_num b < block_num a \<or> (\<not> block_num a < block_num b \<and> block_id a < block_id b)"
      "block_num c < block_num b \<or> (\<not> block_num b < block_num c \<and> block_id b < block_id c)"
    by (rule lex_step[OF that(2) that(1)]) (rule 4)
  have 2: "irreversible_blocknum c < irreversible_blocknum a \<or>
        (\<not> irreversible_blocknum a < irreversible_blocknum c \<and>
         (block_num c < block_num a \<or> (\<not> block_num a < block_num c \<and> block_id a < block_id c)))"
    if "irreversible_blocknum b < irreversible_blocknum a \<or>
        (\<not> irreversible_blocknum a < irreversible_blocknum b \<and>
         (block_num b < block_num a \<or> (\<not> block_num a < block_num b \<and> block_id a < block_id b)))"
      "irreversible_blocknum c < irreversible_blocknum b \<or>
        (\<not> irreversible_blocknum b < irreversible_blocknum c \<and>
         (block_num c < block_num b \<or> (\<not> block_num b < block_num c \<and> block_id b < block_id c)))"
    by (rule lex_step[OF that(2) that(1)]) (rule 3)
  show ?thesis
    unfolding by_lib_block_num_def
    by (rule lex_step[OF assms(2)[unfolded by_lib_block_num_def] assms(1)[unfolded by_lib_block_num_def]]) (rule 2)
qed

lemma set_ordered_insert: "set (ordered_insert n xs) = insert n (set xs)"
  by (induction xs) auto

lemma sorted_ordered_insert:
  assumes "sorted_wrt by_lib_block_num xs" and "block_id n \<notin> block_id ` set xs"
  shows "sorted_wrt by_lib_block_num (ordered_insert n xs)"
  using assms
proof (induction xs)
  case Nil
  then show ?case by simp
next
  case (Cons x xs)
  show ?case
  proof (cases "by_lib_block_num n x")
    case True
    have "by_lib_block_num n y" if "y \<in> set xs" for y
      using Cons.prems(1) that True by_lib_trans[of n x y] by auto
    with True Cons.prems(1) show ?thesis by auto
  next
    case False
    with Cons.prems(2) by_lib_total[of n x] have "by_lib_block_num x n" by auto
    with False Cons show ?thesis by (auto simp: set_ordered_insert)
  qed
qed

lemma index_ok_insert:
  assumes "index_ok idx" and "block_id n \<notin> block_id ` set idx"
  shows "index_ok (ordered_insert n idx)"
proof -
  have "distinct (map block_id (ordered_insert n idx))"
    using assms by (induction idx) (auto simp: index_ok_def set_ordered_insert)
  with sorted_ordered_insert[of idx n] assms show ?thesis by (simp add: index_ok_def)
qed


lemma index_ok_hd_best:
  assumes "index_ok (c # xs)" and "m \<in> set (c # xs)" and "valid m"
  shows "valid c \<and> \<not> first_preferred m c"
proof (cases "m = c")
  case True
  with assms(3) show ?thesis by (simp add: first_preferred_def)
next
  case False
  with assms(1,2) have b: "by_lib_block_num c m" by (auto simp: index_ok_def)
  from by_lib_valid[OF b assms(3)] have "valid c" .
  with b assms(3) by_lib_not_preferred[of c m] show ?thesis by simp
qed



section \<open>The head in reachable states\<close>














subsection \<open>Where the head is kept\<close>





























section \<open>close and then open\<close>

lemma by_lib_sorted_unique:
  assumes "sorted_wrt by_lib_block_num xs" and "sorted_wrt by_lib_block_num ys"
    and "set xs = set ys"
  shows "xs = ys"
  using assms
proof (induction xs arbitrary: ys)
  case Nil
  then show ?case by simp
next
  case (Cons x xs)
  from Cons.prems(3) obtain y ys' where ys: "ys = y # ys'" by (cases ys) auto
  have nx: "x \<notin> set xs" using Cons.prems(1) by_lib_irrefl by auto
  have ny: "y \<notin> set ys'" using Cons.prems(2) ys by_lib_irrefl by auto
  have "x = y"
  proof (rule ccontr)
    assume ne: "x \<noteq> y"
    with Cons.prems(3) ys have "x \<in> set ys'" "y \<in> set xs" by auto
    with Cons.prems(1,2) ys have "by_lib_block_num y x" "by_lib_block_num x y" by auto
    from by_lib_trans[OF this] by_lib_irrefl show False by blast
  qed
  moreover from this Cons.prems(3) ys nx ny have "set xs = set ys'" by auto
  ultimately show ?case using Cons.IH[of ys'] Cons.prems(1,2) ys by simp
qed

lemma length_close_merge: "length (close_merge us vs) = length us + length vs"
  by (induction us vs rule: close_merge.induct) auto

lemma distinct_close_merge:
  "distinct us \<Longrightarrow> distinct vs \<Longrightarrow> set us \<inter> set vs = {} \<Longrightarrow> distinct (close_merge us vs)"
  by (induction us vs rule: close_merge.induct) (auto simp: set_close_merge)

lemma parent_less_preferred:
  assumes "block_num_linked r idx" and "irreversible_monotone r idx"
    and "n \<in> set idx" and "p \<in> set (r # idx)" and "previous n = block_id p"
  shows "first_preferred n p"
proof -
  from assms(1,3,4,5) have "unat (block_num n) = Suc (unat (block_num p))"
    unfolding block_num_linked_def by blast
  then have "block_num p < block_num n" by (simp add: word_less_nat_alt)
  moreover from assms(2,3,4,5) have "irreversible_blocknum p \<le> irreversible_blocknum n"
    unfolding irreversible_monotone_def by blast
  ultimately show ?thesis by (auto simp: first_preferred_def)
qed

lemma add_impl_returns:
  assumes "root t = Some r"
    and "(if block_id r = previous w then Some r else index_find (index t) (previous w)) = Some p"
    and "validator w p" and "index_find (index t) (block_id w) = None"
  shows "\<exists>h'. add_impl validator t w False True =
                Returned (t\<lparr>index := ordered_insert w (index t), head := h'\<rparr>)"
proof -
  obtain c cs where c: "ordered_insert w (index t) = c # cs"
    by (cases "ordered_insert w (index t)") (auto dest: arg_cong[where f=set] simp: set_ordered_insert)
  have g: "get_block_header_impl t (previous w) = Inr (Some p)"
    using assms(1,2) by (simp add: get_block_header_impl_def)
  show ?thesis
  proof (cases "valid c")
    case True
    with assms(1,3,4) g c have "add_impl validator t w False True =
        Returned (t\<lparr>index := ordered_insert w (index t), head := Some c\<rparr>)"
      by (simp add: add_impl_def index_insert_def)
    then show ?thesis by blast
  next
    case False
    with assms(1,3,4) g c have "add_impl validator t w False True =
        Returned (t\<lparr>index := ordered_insert w (index t), head := head t\<rparr>)"
      by (simp add: add_impl_def index_insert_def)
    then show ?thesis by blast
  qed
qed


lemma open_add_loop_all:
  assumes iu: "ids_unique r idx" and pr: "previous_resolves r idx"
    and par: "\<forall>n\<in>set idx. \<forall>p\<in>set (r # idx). previous n = block_id p \<longrightarrow> first_preferred n p"
    and va: "\<forall>n\<in>set idx. \<forall>p\<in>set (r # idx). previous n = block_id p \<longrightarrow> validator n p"
    and "root t = Some r" and "index_ok (index t)"
    and "set (index t) \<union> set ws = set idx" and "set (index t) \<inter> set ws = {}"
    and "distinct ws" and "sorted_wrt (\<lambda>a b. \<not> first_preferred a b) ws"
  shows "\<exists>t'. open_add_loop validator t ws = Returned t' \<and> root t' = Some r \<and>
              magic_number t' = magic_number t \<and> index_ok (index t') \<and>
              set (index t') = set idx"
  using assms(5-)
proof (induction ws arbitrary: t)
  case Nil
  then show ?case by simp
next
  case (Cons w ws)
  have di: "distinct (map block_id idx)" using iu by (simp add: ids_unique_def)
  have dt: "distinct (map block_id (index t))" using Cons.prems(2) by (simp add: index_ok_def)
  from Cons.prems(3) have w: "w \<in> set idx" and sub: "set (index t) \<subseteq> set idx" by auto
  from Cons.prems(4) have wt: "w \<notin> set (index t)" by auto
  have fresh: "index_find (index t) (block_id w) = None"
  proof (rule ccontr)
    assume "index_find (index t) (block_id w) \<noteq> None"
    then obtain x where "index_find (index t) (block_id w) = Some x" by auto
    then have x: "x \<in> set (index t)" "block_id x = block_id w" by (auto dest: index_find_Some_mem)
    with sub distinct_ids_eq[OF di _ w, of x] have "x = w" by auto
    with x(1) wt show False by simp
  qed
  have parent: "\<exists>p. (if block_id r = previous w then Some r
                     else index_find (index t) (previous w)) = Some p \<and> validator w p"
  proof (cases "block_id r = previous w")
    case True
    with va w have "validator w r" by auto
    with True show ?thesis by simp
  next
    case False
    with pr w have "previous w \<in> block_id ` set idx" unfolding previous_resolves_def by auto
    then obtain p where p: "p \<in> set idx" "block_id p = previous w" by auto
    with par w have fp: "first_preferred w p" by auto
    then have "p \<noteq> w" by (auto simp: first_preferred_def)
    moreover from fp Cons.prems(6) have "p \<notin> set ws" by auto
    ultimately have pt: "p \<in> set (index t)" using p(1) Cons.prems(3) by auto
    from index_find_distinct[OF dt pt] p(2) have "index_find (index t) (previous w) = Some p"
      by simp
    moreover from va w p have "validator w p" by auto
    ultimately show ?thesis using False by simp
  qed
  then obtain p where p: "(if block_id r = previous w then Some r
                     else index_find (index t) (previous w)) = Some p" "validator w p" by blast
  from add_impl_returns[of t r w p validator, OF Cons.prems(1) p fresh]
  obtain h' where a: "add_impl validator t w False True =
      Returned (t\<lparr>index := ordered_insert w (index t), head := h'\<rparr>)" by blast
  let ?t = "t\<lparr>index := ordered_insert w (index t), head := h'\<rparr>"
  have "root ?t = Some r" using Cons.prems(1) by simp
  moreover have "index_ok (index ?t)"
    using index_ok_insert[OF Cons.prems(2)] fresh by (simp add: index_find_None)
  moreover have "set (index ?t) \<union> set ws = set idx"
    using Cons.prems(3) by (auto simp: set_ordered_insert)
  moreover have "set (index ?t) \<inter> set ws = {}"
    using Cons.prems(4,5) by (auto simp: set_ordered_insert)
  moreover have "distinct ws" "sorted_wrt (\<lambda>a b. \<not> first_preferred a b) ws"
    using Cons.prems(5,6) by simp_all
  ultimately obtain t' where "open_add_loop validator ?t ws = Returned t'" "root t' = Some r"
    "magic_number t' = magic_number ?t" "index_ok (index t')" "set (index t') = set idx"
    using Cons.IH[of ?t] by blast
  with a show ?case by simp
qed

lemma reset_truncate_valid:
  "valid r \<Longrightarrow> block_header_state.extend (block_header_state.truncate r) (block_state.fields True) = r"
  by (simp add: block_header_state.defs block_state.defs)

text \<open>
  Claim C4, amended. Let a state have its root and head set and satisfy the invariants of
  the data model: the index in the order of its composite view, ids unique over root and
  index, parent links that resolve, block numbers that grow by one and irreversible block
  numbers that do not decrease from parent to child, a valid root, and a head that is the
  root or an index node, is valid and has no valid index node preferred to it. If the
  index has fewer than \<open>2\<^sup>3\<^sup>2\<close> nodes and the validator accepts every index node on top of
  its parent, then \<^verbatim>\<open>open\<close> of the file that \<^verbatim>\<open>close\<close> has written returns, in the
  state before the \<^verbatim>\<open>close\<close>, and removes the file.
\<close>

theorem close_open_roundtrip:
  assumes r: "root s = Some r" and h: "head s = Some h" and vr: "valid r"
    and so: "sorted_wrt by_lib_block_num (index s)"
    and iu: "ids_unique r (index s)" and pr: "previous_resolves r (index s)"
    and bl: "block_num_linked r (index s)" and im: "irreversible_monotone r (index s)"
    and hin: "h = r \<or> h \<in> set (index s)" and vh: "valid h"
    and best: "\<forall>n\<in>set (index s). valid n \<longrightarrow> \<not> first_preferred n h"
    and len: "length (index s) < 2 ^ 32"
    and va: "\<forall>n\<in>set (index s). \<forall>p\<in>set (r # index s).
               previous n = block_id p \<longrightarrow> validator n p"
  shows "open_impl validator (fst (close_impl s)) (snd (close_impl s)) = (Returned s, None)"
proof -
  let ?idx = "index s"
  let ?ws = "close_merge (rev (dropWhile valid ?idx)) (rev (takeWhile valid ?idx))"
  let ?f = "\<lparr>file_magic = magic_number s, file_version = max_supported_version,
            file_root = block_header_state.truncate r,
            file_num_blocks = of_nat (length ?idx), file_blocks = ?ws,
            file_head_id = Some (block_id h)\<rparr>"
  let ?s1 = "s\<lparr>index := []\<rparr>"
  have cl: "close_impl s = (?s1, Some ?f)"
    using r h by (simp add: close_impl_def lower_bound_false_def)
  have di: "distinct (map block_id ?idx)" using iu by (simp add: ids_unique_def)
  then have dx: "distinct ?idx" by (rule distinct_map[THEN iffD1, THEN conjunct1])
  have ok: "index_ok ?idx" using so di by (simp add: index_ok_def)
  from close_ascending[OF r so] have asc: "sorted_wrt (\<lambda>a b. \<not> first_preferred a b) ?ws"
    and ms: "mset ?ws = mset ?idx" by auto
  from ms have sw: "set ?ws = set ?idx" by (rule mset_eq_setD)
  from ms dx have dw: "distinct ?ws" by (metis mset_eq_imp_distinct_iff)
  have lw: "length ?ws = length ?idx" using ms by (rule mset_eq_length)
  have un: "unat (of_nat (length ?idx) :: 32 word) = length ?idx"
    using len by (simp add: unat_of_nat)
  let ?s2 = "reset_impl ?s1 (block_header_state.truncate r)"
  have s2: "?s2 = s\<lparr>index := [], root := Some r, head := Some r\<rparr>"
    using vr by (simp add: reset_impl_def Let_def reset_truncate_valid)
  have par: "\<forall>n\<in>set ?idx. \<forall>p\<in>set (r # ?idx). previous n = block_id p \<longrightarrow> first_preferred n p"
    using parent_less_preferred[OF bl im] by blast
  have "\<exists>t'. open_add_loop validator ?s2 ?ws = Returned t' \<and> root t' = Some r \<and>
              magic_number t' = magic_number ?s2 \<and> index_ok (index t') \<and>
              set (index t') = set ?idx"
    by (rule open_add_loop_all[OF iu pr par va]) (simp_all add: s2 sw dw asc index_ok_def)
  then obtain t' where t': "open_add_loop validator ?s2 ?ws = Returned t'" "root t' = Some r"
    "magic_number t' = magic_number s" "index_ok (index t')" "set (index t') = set ?idx"
    by (auto simp: s2)
  have it: "index t' = ?idx"
    using by_lib_sorted_unique[of "index t'" ?idx] t'(4,5) so by (simp add: index_ok_def)
  have final: "t'\<lparr>head := Some h\<rparr> = s"
    using it t'(2,3) r h by (cases s, cases t') simp
  have hd_found: "(if block_id r = block_id h then Some r else get_block_impl t' (block_id h)) = Some h"
  proof (cases "h = r")
    case True
    then show ?thesis by simp
  next
    case False
    with hin have hi: "h \<in> set ?idx" by simp
    with iu have "block_id r \<noteq> block_id h" by (auto simp: ids_unique_def)
    with index_find_distinct[OF di hi] it show ?thesis by (simp add: get_block_impl_def)
  qed
  have check: "(case index t' of
                  [] \<Rightarrow> block_id h = block_id r
                | c # _ \<Rightarrow> if \<not> valid c then block_id h = block_id r
                           else \<not> first_preferred c h)"
  proof (cases ?idx)
    case Nil
    with hin it show ?thesis by simp
  next
    case (Cons c cs)
    show ?thesis
    proof (cases "valid c")
      case True
      with best Cons it show ?thesis by simp
    next
      case False
      have "h \<notin> set ?idx"
      proof
        assume "h \<in> set ?idx"
        with index_ok_hd_best[of c cs h] ok Cons vh False show False by simp
      qed
      with hin False Cons it show ?thesis by simp
    qed
  qed
  have op: "open_impl validator ?s1 (Some ?f) = (Returned (t'\<lparr>head := Some h\<rparr>), None)"
  proof (cases "index t'")
    case Nil
    with check have "block_id h = block_id r" by simp
    with Nil t'(1,2) hd_found un lw show ?thesis
      by (simp add: open_impl_def min_supported_version_def max_supported_version_def)
  next
    case (Cons c cs)
    show ?thesis
    proof (cases "valid c")
      case True
      with check Cons have "\<not> first_preferred c h" by simp
      with True Cons t'(1,2) hd_found un lw show ?thesis
        by (simp add: open_impl_def min_supported_version_def max_supported_version_def)
    next
      case False
      with check Cons have "block_id h = block_id r" by simp
      with False Cons t'(1,2) hd_found un lw show ?thesis
        by (simp add: open_impl_def min_supported_version_def max_supported_version_def)
    qed
  qed
  show ?thesis unfolding cl using op final by simp
qed


theorem close_open_roundtrip_witness:
  "root ex_two = Some (blk 10 9 10 5 True) \<and> head ex_two = Some (blk 11 10 11 5 True) \<and>
   valid (blk 10 9 10 5 True) \<and> sorted_wrt by_lib_block_num (index ex_two) \<and>
   ids_unique (blk 10 9 10 5 True) (index ex_two) \<and>
   previous_resolves (blk 10 9 10 5 True) (index ex_two) \<and>
   block_num_linked (blk 10 9 10 5 True) (index ex_two) \<and>
   irreversible_monotone (blk 10 9 10 5 True) (index ex_two) \<and>
   blk 11 10 11 5 True \<in> set (index ex_two) \<and> valid (blk 11 10 11 5 True) \<and>
   length (index ex_two) < 2 ^ 32 \<and>
   open_impl (\<lambda>_ _. True) (fst (close_impl ex_two)) (snd (close_impl ex_two)) =
     (Returned ex_two, None)"
proof -
  have h: "root ex_two = Some (blk 10 9 10 5 True)" "head ex_two = Some (blk 11 10 11 5 True)"
    "valid (blk 10 9 10 5 True)" "sorted_wrt by_lib_block_num (index ex_two)"
    "ids_unique (blk 10 9 10 5 True) (index ex_two)"
    "previous_resolves (blk 10 9 10 5 True) (index ex_two)"
    "block_num_linked (blk 10 9 10 5 True) (index ex_two)"
    "irreversible_monotone (blk 10 9 10 5 True) (index ex_two)"
    "blk 11 10 11 5 True = blk 10 9 10 5 True \<or> blk 11 10 11 5 True \<in> set (index ex_two)"
    "valid (blk 11 10 11 5 True)"
    "\<forall>n\<in>set (index ex_two). valid n \<longrightarrow> \<not> first_preferred n (blk 11 10 11 5 True)"
    "length (index ex_two) < 2 ^ 32"
    "\<forall>n\<in>set (index ex_two). \<forall>p\<in>set (blk 10 9 10 5 True # index ex_two).
        previous n = block_id p \<longrightarrow> (\<lambda>_ _. True) n p"
    by (simp_all add: ex_two_eq inv_defs blk_def by_lib_block_num_def first_preferred_def)
  have i: "blk 11 10 11 5 True \<in> set (index ex_two)" by (simp add: ex_two_eq)
  from close_open_roundtrip[OF h] h i show ?thesis by simp
qed

text \<open>
  Claim C4, as stated, fails: the structural invariants of the nodes are not enough. After
  a \<^verbatim>\<open>close\<close> the root and the head are set and the index is empty, so that its nodes
  satisfy every invariant; a second \<^verbatim>\<open>close\<close> writes the id of the head, which
  \<^verbatim>\<open>open\<close> finds neither in the root nor in the index. And a validator that rejects a
  block makes \<^verbatim>\<open>open\<close> throw for the file of any tree.
\<close>

theorem close_open_counterexample:
  "root ex_closed = Some (blk 10 9 10 5 True) \<and>
   head ex_closed = Some (blk 11 10 11 5 True) \<and> index ex_closed = [] \<and>
   fst (open_impl (\<lambda>_ _. True) (fst (close_impl ex_closed)) (snd (close_impl ex_closed))) =
     Threw head_not_found
       \<lparr>index = [], root = Some (blk 10 9 10 5 True), head = None, magic_number = 7\<rparr> \<and>
   fst (open_impl (\<lambda>_ _. False) (fst (close_impl ex_two)) (snd (close_impl ex_two))) =
     Threw incompatible_features
       \<lparr>index = [], root = Some (blk 10 9 10 5 True), head = Some (blk 10 9 10 5 True),
          magic_number = 7\<rparr>"
  by (simp add: ex_closed_eq ex_two_eq close_impl_def open_impl_def lower_bound_false_def
        min_supported_version_def max_supported_version_def get_block_impl_def blk_def op_defs)

end
